theory Spec2Isabelle
  imports Complex_Main "HOL-Library.Word" "HOL-Library.Multiset"
begin

section \<open>Guess evaluation (\<open>evaluate\<close> in the worker)\<close>

text \<open>
  The worker scores a guess against the answer with the strings \<open>"correct"\<close>,
  \<open>"present"\<close> and \<open>"absent"\<close>; these three strings are the constructors of \<open>tag\<close>.
\<close>

datatype tag = Correct | Present | Absent

text \<open>
  Strings are lists of code units; \<open>split("")\<close> yields the array of the one-unit
  strings of a string. An array element is \<open>Some c\<close> for the string \<open>c\<close> and \<open>None\<close> for
  \<open>undefined\<close>, which is what reading a hole or reading past the end yields. Writing at
  or past the end extends the array, leaving holes in between.
\<close>

definition js_get :: "'a option list \<Rightarrow> nat \<Rightarrow> 'a option" where
  "js_get xs i = (if i < length xs then xs ! i else None)"

definition js_set :: "'a option list \<Rightarrow> nat \<Rightarrow> 'a \<Rightarrow> 'a option list" where
  "js_set xs i v =
     (if i < length xs then xs[i := Some v]
      else xs @ replicate (i - length xs) None @ [Some v])"

text \<open>
  \<open>indexOf\<close> compares with strict equality and skips holes, so looking for \<open>undefined\<close>
  in an array whose defined elements are all strings finds nothing (\<open>-1\<close>, here \<open>None\<close>).
\<close>

fun first_index :: "'a option list \<Rightarrow> 'a \<Rightarrow> nat option" where
  "first_index [] c = None"
| "first_index (x # xs) c =
     (if x = Some c then Some 0 else map_option Suc (first_index xs c))"

fun indexOf :: "'a option list \<Rightarrow> 'a option \<Rightarrow> nat option" where
  "indexOf xs None = None"
| "indexOf xs (Some c) = first_index xs c"

record eval_state =
  result :: "tag list"
  answerLetters :: "char option list"
  guessLetters :: "char option list"

text \<open>The body of the first loop, at index \<open>i\<close>.\<close>

definition pass1_step :: "nat \<Rightarrow> eval_state \<Rightarrow> eval_state" where
  "pass1_step i s =
     (if js_get (guessLetters s) i = js_get (answerLetters s) i
      then s\<lparr>result := (result s)[i := Correct],
             answerLetters := js_set (answerLetters s) i (CHR ''_''),
             guessLetters := js_set (guessLetters s) i (CHR ''_'')\<rparr>
      else s)"

text \<open>The body of the second loop, at index \<open>i\<close>.\<close>

definition pass2_step :: "nat \<Rightarrow> eval_state \<Rightarrow> eval_state" where
  "pass2_step i s =
     (if js_get (guessLetters s) i = Some (CHR ''_'') then s
      else case indexOf (answerLetters s) (js_get (guessLetters s) i) of
             None \<Rightarrow> s
           | Some idx \<Rightarrow>
               s\<lparr>result := (result s)[i := Present],
                 answerLetters := js_set (answerLetters s) idx (CHR ''_'')\<rparr>)"

definition init_state :: "string \<Rightarrow> string \<Rightarrow> eval_state" where
  "init_state guess answer =
     \<lparr>result = replicate 5 Absent,
      answerLetters = map Some answer,
      guessLetters = map Some guess\<rparr>"

definition evaluate :: "string \<Rightarrow> string \<Rightarrow> tag list" where
  "evaluate guess answer =
     result (fold pass2_step [0..<5] (fold pass1_step [0..<5] (init_state guess answer)))"


section \<open>The daily word (\<open>getDailyWord\<close>) and the game number (\<open>getGameNumber\<close>)\<close>

text \<open>
  A \<open>Date\<close> is its time value: milliseconds since 1970-01-01T00:00:00Z, an integer.
  The wall clock read by \<open>new Date()\<close> is the argument \<open>now\<close> of the functions below.
  The UTC getters depend on the day number only; the civil date of a day number is
  computed over 400-year eras starting on 1 March.
\<close>

definition msPerDay :: int where
  "msPerDay = 86400000"

definition Day :: "int \<Rightarrow> int" where
  "Day t = t div msPerDay"

definition era_day :: "int \<Rightarrow> int" where
  "era_day t = (Day t + 719468) mod 146097"

definition era_year :: "int \<Rightarrow> int" where
  "era_year t =
     (let doe = era_day t
      in (doe - doe div 1460 + doe div 36524 - doe div 146096) div 365)"

definition march_day :: "int \<Rightarrow> int" where
  "march_day t =
     (let yoe = era_year t
      in era_day t - (365 * yoe + yoe div 4 - yoe div 100))"

definition march_month :: "int \<Rightarrow> int" where
  "march_month t = (5 * march_day t + 2) div 153"

definition getUTCMonth :: "int \<Rightarrow> int" where
  "getUTCMonth t = (let mp = march_month t in if mp < 10 then mp + 2 else mp - 10)"

definition getUTCDate :: "int \<Rightarrow> int" where
  "getUTCDate t = march_day t - (153 * march_month t + 2) div 5 + 1"

definition getUTCFullYear :: "int \<Rightarrow> int" where
  "getUTCFullYear t =
     era_year t + 400 * ((Day t + 719468) div 146097)
       + (if getUTCMonth t \<le> 1 then 1 else 0)"

text \<open>
  A template literal renders an integer in decimal, without padding, with a leading
  minus sign when it is negative.
\<close>

definition digit_char :: "nat \<Rightarrow> char" where
  "digit_char d = char_of (48 + d)"

fun digits :: "nat \<Rightarrow> string" where
  "digits n = (if n < 10 then [digit_char n] else digits (n div 10) @ [digit_char (n mod 10)])"

declare digits.simps [simp del]

definition toString :: "int \<Rightarrow> string" where
  "toString n = (if n < 0 then CHR ''-'' # digits (nat (- n)) else digits (nat n))"

definition dateStr :: "int \<Rightarrow> string" where
  "dateStr today =
     toString (getUTCFullYear today) @ ''-'' @ toString (getUTCMonth today + 1)
       @ ''-'' @ toString (getUTCDate today)"

text \<open>
  Numbers are kept as integers. \<open>ToInt32\<close> is the conversion that \<open>| 0\<close> and the operands
  of \<open><<\<close> go through; \<open>x << k\<close> shifts within 32 bits and gives a signed 32-bit result.
  The subtraction and the addition between them are exact: their operands stay far below
  \<open>2 ^ 53\<close>.
\<close>

definition ToInt32 :: "int \<Rightarrow> int" where
  "ToInt32 x = (x + 2 ^ 31) mod 2 ^ 32 - 2 ^ 31"

definition shl32 :: "int \<Rightarrow> nat \<Rightarrow> int" where
  "shl32 x k = ToInt32 (ToInt32 x * 2 ^ (k mod 32))"

definition charCode :: "char \<Rightarrow> int" where
  "charCode c = int (of_char c)"

text \<open>One iteration of the loop of \<open>getDailyWord\<close>: both of its statements.\<close>

definition hash_step :: "int \<Rightarrow> char \<Rightarrow> int" where
  "hash_step hash c = ToInt32 ((shl32 hash 5 - hash) + charCode c)"

definition hash_loop :: "string \<Rightarrow> int" where
  "hash_loop s = foldl hash_step 0 s"

text \<open>
  The word list lives in a module of its own and is a parameter here. Indexing an empty
  list yields \<open>undefined\<close> (the index is \<open>NaN\<close>), which is \<open>None\<close>.
\<close>

definition getDailyWord :: "string list \<Rightarrow> int \<Rightarrow> string option" where
  "getDailyWord WORDS today =
     (let hash = hash_loop (dateStr today)
      in if WORDS = [] then None
         else Some (WORDS ! nat (\<bar>hash\<bar> mod int (length WORDS))))"

text \<open>The time value of \<open>new Date("2025-01-01T00:00:00Z")\<close>.\<close>

definition start_time :: int where
  "start_time = 1735689600000"

text \<open>
  \<open>Math.floor\<close> of the quotient. The quotient is taken exactly: for time values in the
  range of \<open>Date\<close> the difference is exact and the rounded quotient of the two integers
  never reaches the next integer, so the floor is that of the exact quotient.
\<close>

definition getGameNumber :: "int \<Rightarrow> int" where
  "getGameNumber now = \<lfloor>real_of_int (now - start_time) / 86400000\<rfloor>"

text \<open>
  The recurrence in the words of the specification: \<open>hash = hash * 31 + charCode\<close> in
  wrap-around 32-bit arithmetic, read as a signed value.
\<close>

definition hash31 :: "string \<Rightarrow> 32 word" where
  "hash31 s = foldl (\<lambda>h c. h * 31 + of_nat (of_char c)) 0 s"


section \<open>The request handlers\<close>

text \<open>
  What a handler sends back: \<open>c.json(body, status)\<close>. The error body carries its message
  and status; the other constructors are the three success bodies. \<open>Uncaught\<close> stands
  for an exception thrown out of the handler.
\<close>

datatype response =
    Json_error string nat
  | Json_game int
  | Json_guess "tag list" bool
  | Json_fastest "int option" "int option"
  | Uncaught

text \<open>
  \<open>toLowerCase\<close> and \<open>trim\<close> on strings of code units below 256: the upper-case letters
  are A to Z and the accented capitals 192 to 222 (without the multiplication sign 215);
  white space is tab, line feed, vertical tab, form feed, carriage return, space and the
  no-break space.
\<close>

definition lower_char :: "char \<Rightarrow> char" where
  "lower_char c =
     (let n = of_char c :: nat
      in if (65 \<le> n \<and> n \<le> 90) \<or> (192 \<le> n \<and> n \<le> 222 \<and> n \<noteq> 215)
         then char_of (n + 32) else c)"

definition toLowerCase :: "string \<Rightarrow> string" where
  "toLowerCase s = map lower_char s"

definition is_space :: "char \<Rightarrow> bool" where
  "is_space c = (let n = of_char c :: nat in (9 \<le> n \<and> n \<le> 13) \<or> n = 32 \<or> n = 160)"

definition trim :: "string \<Rightarrow> string" where
  "trim s = rev (dropWhile is_space (rev (dropWhile is_space s)))"

definition WORD_SET :: "string list \<Rightarrow> string set" where
  "WORD_SET WORDS = set WORDS"

definition api_game :: "int \<Rightarrow> response" where
  "api_game now = Json_game (getGameNumber now)"

text \<open>
  \<open>POST /api/guess\<close>. With \<open>undefined\<close> for the answer, \<open>evaluate\<close> throws at
  \<open>answer.split\<close>.
\<close>

definition api_guess :: "string list \<Rightarrow> int \<Rightarrow> string \<Rightarrow> response" where
  "api_guess WORDS now guess =
     (let word = trim (toLowerCase guess)
      in if length word \<noteq> 5 then Json_error ''Word must be 5 letters'' 400
         else if word \<notin> WORD_SET WORDS then Json_error ''Not in word list'' 400
         else case getDailyWord WORDS now of
                None \<Rightarrow> Uncaught
              | Some answer \<Rightarrow> Json_guess (evaluate word answer) (word = answer))"

subsection \<open>The table of fastest times\<close>

text \<open>
  \<open>fastest_times\<close> has the primary key \<open>game_number\<close>, so it is a partial map from game
  numbers to rows. The column \<open>created_at\<close> is never selected by a handler and is left out.
  Numbers in requests and rows are integers.
\<close>

record row =
  time_ms :: int
  num_guesses :: int

type_synonym fastest_times = "int \<Rightarrow> row option"

definition select_time_ms :: "fastest_times \<Rightarrow> int \<Rightarrow> int option" where
  "select_time_ms tbl g = map_option time_ms (tbl g)"

definition insert_or_replace :: "fastest_times \<Rightarrow> int \<Rightarrow> int \<Rightarrow> int \<Rightarrow> fastest_times" where
  "insert_or_replace tbl g t n = tbl(g \<mapsto> \<lparr>time_ms = t, num_guesses = n\<rparr>)"

definition select_fastest :: "fastest_times \<Rightarrow> int \<Rightarrow> row option" where
  "select_fastest tbl g = tbl g"

definition fastest_json :: "row option \<Rightarrow> response" where
  "fastest_json fastest = Json_fastest (map_option time_ms fastest) (map_option num_guesses fastest)"

definition api_fastest :: "fastest_times \<Rightarrow> int \<Rightarrow> response" where
  "api_fastest tbl g = fastest_json (select_fastest tbl g)"

subsection \<open>\<open>POST /api/solve\<close>\<close>

record solve_request =
  gameNumber :: int
  timeMs :: int
  numGuesses :: int

text \<open>
  The handler awaits three statements on the table, one after the other; each statement
  is one step. \<open>Selected current\<close> holds the outcome of the first \<open>SELECT\<close>; the second step
  is the guarded \<open>INSERT OR REPLACE\<close>; the third is the final \<open>SELECT\<close> and the response.
\<close>

datatype solve_pc =
    Received
  | Selected "int option"
  | Updated
  | Responded response

fun solve_step :: "solve_request \<Rightarrow> solve_pc \<times> fastest_times \<Rightarrow> solve_pc \<times> fastest_times" where
  "solve_step rq (Received, tbl) = (Selected (select_time_ms tbl (gameNumber rq)), tbl)"
| "solve_step rq (Selected current, tbl) =
     (case current of
        None \<Rightarrow> (Updated, insert_or_replace tbl (gameNumber rq) (timeMs rq) (numGuesses rq))
      | Some stored \<Rightarrow>
          if timeMs rq < stored
          then (Updated, insert_or_replace tbl (gameNumber rq) (timeMs rq) (numGuesses rq))
          else (Updated, tbl))"
| "solve_step rq (Updated, tbl) =
     (Responded (fastest_json (select_fastest tbl (gameNumber rq))), tbl)"
| "solve_step rq (Responded r, tbl) = (Responded r, tbl)"

text \<open>One request handled alone: the three steps in a row.\<close>

definition api_solve :: "fastest_times \<Rightarrow> solve_request \<Rightarrow> solve_pc \<times> fastest_times" where
  "api_solve tbl rq = solve_step rq (solve_step rq (solve_step rq (Received, tbl)))"

text \<open>Requests for one game number handled one after the other.\<close>

definition submit :: "int \<Rightarrow> int \<times> int \<Rightarrow> fastest_times \<Rightarrow> fastest_times" where
  "submit g p tbl = snd (api_solve tbl \<lparr>gameNumber = g, timeMs = fst p, numGuesses = snd p\<rparr>)"

definition submit_all :: "int \<Rightarrow> (int \<times> int) list \<Rightarrow> fastest_times \<Rightarrow> fastest_times" where
  "submit_all g ps tbl = fold (submit g) ps tbl"

text \<open>
  Two requests in flight at once: a schedule says whose statement runs next. A
  schedule of two handlers is an interleaving of three steps of each.
\<close>

datatype caller = First | Second

record in_flight =
  pc1 :: solve_pc
  pc2 :: solve_pc
  table :: fastest_times

fun sched_step :: "solve_request \<Rightarrow> solve_request \<Rightarrow> caller \<Rightarrow> in_flight \<Rightarrow> in_flight" where
  "sched_step rq1 rq2 First c =
     (let (pc', tbl') = solve_step rq1 (pc1 c, table c) in c\<lparr>pc1 := pc', table := tbl'\<rparr>)"
| "sched_step rq1 rq2 Second c =
     (let (pc', tbl') = solve_step rq2 (pc2 c, table c) in c\<lparr>pc2 := pc', table := tbl'\<rparr>)"

definition run :: "solve_request \<Rightarrow> solve_request \<Rightarrow> caller list \<Rightarrow> fastest_times \<Rightarrow> in_flight" where
  "run rq1 rq2 sched tbl0 =
     fold (sched_step rq1 rq2) sched \<lparr>pc1 = Received, pc2 = Received, table = tbl0\<rparr>"

fun interleavings :: "'a list \<Rightarrow> 'a list \<Rightarrow> 'a list list" where
  "interleavings [] ys = [ys]"
| "interleavings xs [] = [xs]"
| "interleavings (x # xs) (y # ys) =
     map ((#) x) (interleavings xs (y # ys)) @ map ((#) y) (interleavings (x # xs) ys)"

definition schedules :: "caller list list" where
  "schedules = interleavings [First, First, First] [Second, Second, Second]"

section \<open>Measures used in the statements\<close>

text \<open>The row a submission asks to store, and the better of a submission and a row.\<close>

definition row_of :: "int \<times> int \<Rightarrow> row" where
  "row_of p = \<lparr>time_ms = fst p, num_guesses = snd p\<rparr>"

definition keep_faster :: "int \<times> int \<Rightarrow> row \<Rightarrow> row" where
  "keep_faster p r = (if fst p < time_ms r then row_of p else r)"

text \<open>The least time among submissions, and the first submission that has it.\<close>

definition least_time :: "(int \<times> int) list \<Rightarrow> int" where
  "least_time ps = Min (set (map fst ps))"

definition first_fastest :: "(int \<times> int) list \<Rightarrow> (int \<times> int) option" where
  "first_fastest ps = find (\<lambda>p. fst p = least_time ps) ps"

definition lowercase5 :: "string \<Rightarrow> bool" where
  "lowercase5 w = (length w = 5 \<and> list_all (\<lambda>c. 97 \<le> (of_char c :: nat) \<and> (of_char c :: nat) \<le> 122) w)"

text \<open>The number of positions where guess and answer carry the same letter.\<close>

definition matching :: "string \<Rightarrow> string \<Rightarrow> nat" where
  "matching guess answer = length (filter (\<lambda>(x, y). x = y) (zip guess answer))"

text \<open>The number of positions of the guess with letter \<open>c\<close> tagged correct or present.\<close>

definition marked :: "char \<Rightarrow> string \<Rightarrow> tag list \<Rightarrow> nat" where
  "marked c guess tags = length (filter (\<lambda>(x, t). x = c \<and> t \<noteq> Absent) (zip guess tags))"


text \<open>
  What the two loops of \<open>evaluate\<close> maintain on five-letter strings. A letter other than
  the placeholder is marked in the guess as often as it has been taken from the
  answer's letters.
\<close>

definition counts_ok :: "string \<Rightarrow> string \<Rightarrow> eval_state \<Rightarrow> bool" where
  "counts_ok g a s \<longleftrightarrow>
     length (result s) = 5 \<and> length (answerLetters s) = 5 \<and> length (guessLetters s) = 5
     \<and> (\<forall>c. c \<noteq> CHR ''_'' \<longrightarrow>
           marked c g (result s) + count_list (answerLetters s) (Some c) = count_list a c)"

text \<open>After the first \<open>n\<close> rounds of the first loop.\<close>

definition pass1_inv :: "string \<Rightarrow> string \<Rightarrow> nat \<Rightarrow> eval_state \<Rightarrow> bool" where
  "pass1_inv g a n s \<longleftrightarrow>
     counts_ok g a s
     \<and> (\<forall>i<5. if i < n \<and> g ! i = a ! i
               then result s ! i = Correct \<and> guessLetters s ! i = Some (CHR ''_'')
               else result s ! i = Absent \<and> guessLetters s ! i = Some (g ! i)
                    \<and> answerLetters s ! i = Some (a ! i))"

text \<open>After the first loop and the first \<open>n\<close> rounds of the second.\<close>

definition pass2_inv :: "string \<Rightarrow> string \<Rightarrow> nat \<Rightarrow> eval_state \<Rightarrow> bool" where
  "pass2_inv g a n s \<longleftrightarrow>
     counts_ok g a s
     \<and> (\<forall>i<5. guessLetters s ! i = (if g ! i = a ! i then Some (CHR ''_'') else Some (g ! i))
               \<and> (result s ! i = Correct) = (g ! i = a ! i)
               \<and> (n \<le> i \<and> g ! i \<noteq> a ! i \<longrightarrow> result s ! i = Absent))"

section \<open>The game number\<close>

lemma getGameNumber_div: "getGameNumber now = (now - start_time) div 86400000"
proof -
  have "\<lfloor>real_of_int (now - start_time) / real_of_int 86400000\<rfloor>
          = (now - start_time) div 86400000"
    by (rule floor_divide_of_int_eq)
  then show ?thesis by (simp add: getGameNumber_def)
qed

lemma start_time_midnight:
  "getUTCFullYear start_time = 2025 \<and> getUTCMonth start_time = 0
   \<and> getUTCDate start_time = 1 \<and> start_time mod msPerDay = 0"
  by code_simp

text \<open>
  C6. The game number of a time value is the floor of the days elapsed since
  2025-01-01T00:00:00Z (the time value 1735689600000). UTC midnights are the multiples
  of a day's milliseconds: the millisecond before a midnight and the midnight itself
  have game numbers exactly one apart. The game number never decreases as time advances.
\<close>

theorem getGameNumber_days:
  "getGameNumber now = (now - start_time) div msPerDay
   \<and> start_time = 1735689600000
   \<and> getGameNumber (k * msPerDay) = getGameNumber (k * msPerDay - 1) + 1
   \<and> (now \<le> now' \<longrightarrow> getGameNumber now \<le> getGameNumber now')"
proof (intro conjI impI)
  show "getGameNumber now = (now - start_time) div msPerDay"
    by (simp add: getGameNumber_div msPerDay_def)
  show "start_time = 1735689600000"
    by (simp add: start_time_def)
  have st: "start_time = 20089 * 86400000"
    by (simp add: start_time_def)
  have a: "k * 86400000 - 20089 * 86400000 = (k - 20089) * (86400000::int)"
    by (simp add: algebra_simps)
  have b: "k * 86400000 - 1 - 20089 * 86400000
             = (k - 20089 - 1) * 86400000 + (86399999::int)"
    by (simp add: algebra_simps)
  have "((k - 20089 - 1) * 86400000 + (86399999::int)) div 86400000 = k - 20089 - 1"
    by simp
  then show "getGameNumber (k * msPerDay) = getGameNumber (k * msPerDay - 1) + 1"
    unfolding getGameNumber_div msPerDay_def st a b by simp
  assume "now \<le> now'"
  then show "getGameNumber now \<le> getGameNumber now'"
    by (simp add: getGameNumber_div zdiv_mono1)
qed

theorem getGameNumber_days_witness:
  "getGameNumber 1793664000000 = 671 \<and> getGameNumber (1793664000000 - 1) = 670
   \<and> 1793664000000 - 1 \<le> (1793664000000::int)
   \<and> getGameNumber (1793664000000 - 1) \<le> getGameNumber 1793664000000"
  using getGameNumber_days [of "1793664000000 - 1" 20760 1793664000000]
  by (simp add: msPerDay_def start_time_def)

section \<open>Scoring a repeated letter\<close>

text \<open>
  C2, as stated: scoring the guess "speed" against the answer "erase" marks one "e" of
  the guess as present or correct. It marks two.
\<close>

theorem speed_erase_counterexample:
  "marked (CHR ''e'') ''speed'' (evaluate ''speed'' ''erase'') \<noteq> 1"
  by code_simp

text \<open>
  C2, amended. The answer "erase" holds two "e": scoring "speed" against it gives
  present, absent, present, present, absent, so both "e" of the guess are marked
  present, as many as the answer holds.
\<close>

theorem speed_erase_tags:
  "evaluate ''speed'' ''erase'' = [Present, Absent, Present, Present, Absent]
   \<and> marked (CHR ''e'') ''speed'' (evaluate ''speed'' ''erase'') = 2
   \<and> count_list ''erase'' (CHR ''e'') = 2"
  by code_simp


section \<open>The update rule of \<open>POST /api/solve\<close>\<close>

lemma api_solve_None:
  "tbl (gameNumber rq) = None \<Longrightarrow>
   api_solve tbl rq =
     (Responded (Json_fastest (Some (timeMs rq)) (Some (numGuesses rq))),
      tbl(gameNumber rq \<mapsto> \<lparr>time_ms = timeMs rq, num_guesses = numGuesses rq\<rparr>))"
  by (simp add: api_solve_def select_time_ms_def insert_or_replace_def select_fastest_def
      fastest_json_def)

lemma api_solve_faster:
  "tbl (gameNumber rq) = Some r \<Longrightarrow> timeMs rq < time_ms r \<Longrightarrow>
   api_solve tbl rq =
     (Responded (Json_fastest (Some (timeMs rq)) (Some (numGuesses rq))),
      tbl(gameNumber rq \<mapsto> \<lparr>time_ms = timeMs rq, num_guesses = numGuesses rq\<rparr>))"
  by (simp add: api_solve_def select_time_ms_def insert_or_replace_def select_fastest_def
      fastest_json_def)

lemma api_solve_slower:
  "tbl (gameNumber rq) = Some r \<Longrightarrow> \<not> timeMs rq < time_ms r \<Longrightarrow>
   api_solve tbl rq =
     (Responded (Json_fastest (Some (time_ms r)) (Some (num_guesses r))), tbl)"
  by (simp add: api_solve_def select_time_ms_def insert_or_replace_def select_fastest_def
      fastest_json_def)

text \<open>
  C3. Handling one submission: with no row for the game number the submission is
  inserted; with a row whose time is strictly greater, time and number of guesses are
  both replaced; otherwise the table is unchanged. In every case the response carries
  the row stored for the game number after the update. Rows of other game numbers
  are untouched.
\<close>

theorem api_solve_update_rule:
  "(tbl (gameNumber rq) = None \<longrightarrow>
      snd (api_solve tbl rq) (gameNumber rq)
        = Some \<lparr>time_ms = timeMs rq, num_guesses = numGuesses rq\<rparr>)
   \<and> (\<forall>r. tbl (gameNumber rq) = Some r \<and> timeMs rq < time_ms r \<longrightarrow>
      snd (api_solve tbl rq) (gameNumber rq)
        = Some \<lparr>time_ms = timeMs rq, num_guesses = numGuesses rq\<rparr>)
   \<and> (\<forall>r. tbl (gameNumber rq) = Some r \<and> \<not> timeMs rq < time_ms r \<longrightarrow>
      snd (api_solve tbl rq) = tbl)
   \<and> (\<exists>r'. snd (api_solve tbl rq) (gameNumber rq) = Some r'
         \<and> fst (api_solve tbl rq)
             = Responded (Json_fastest (Some (time_ms r')) (Some (num_guesses r'))))
   \<and> (\<forall>g'. g' \<noteq> gameNumber rq \<longrightarrow> snd (api_solve tbl rq) g' = tbl g')"
proof (cases "tbl (gameNumber rq)")
  case None
  then show ?thesis by (simp add: api_solve_None)
next
  case (Some r)
  show ?thesis
  proof (cases "timeMs rq < time_ms r")
    case True
    with Some show ?thesis by (simp add: api_solve_faster)
  next
    case False
    with Some show ?thesis by (simp add: api_solve_slower)
  qed
qed

theorem api_solve_update_rule_witness:
  "(let rq = \<lparr>gameNumber = 7, timeMs = 300, numGuesses = 4\<rparr> in
      Map.empty (gameNumber rq) = None
      \<and> snd (api_solve Map.empty rq) 7 = Some \<lparr>time_ms = 300, num_guesses = 4\<rparr>)
   \<and> (let rq = \<lparr>gameNumber = 7, timeMs = 300, numGuesses = 4\<rparr>;
          t = [7 \<mapsto> \<lparr>time_ms = 500, num_guesses = 2\<rparr>] in
      t (gameNumber rq) = Some \<lparr>time_ms = 500, num_guesses = 2\<rparr> \<and> timeMs rq < 500
      \<and> snd (api_solve t rq) 7 = Some \<lparr>time_ms = 300, num_guesses = 4\<rparr>)
   \<and> (let rq = \<lparr>gameNumber = 7, timeMs = 500, numGuesses = 1\<rparr>;
          t = [7 \<mapsto> \<lparr>time_ms = 500, num_guesses = 2\<rparr>] in
      t (gameNumber rq) = Some \<lparr>time_ms = 500, num_guesses = 2\<rparr> \<and> \<not> timeMs rq < 500
      \<and> snd (api_solve t rq) = t
      \<and> fst (api_solve t rq) = Responded (Json_fastest (Some 500) (Some 2)))"
  using api_solve_update_rule [of Map.empty "\<lparr>gameNumber = 7, timeMs = 300, numGuesses = 4\<rparr>"]
    api_solve_update_rule [of "[7 \<mapsto> \<lparr>time_ms = 500, num_guesses = 2\<rparr>]"
      "\<lparr>gameNumber = 7, timeMs = 300, numGuesses = 4\<rparr>"]
    api_solve_update_rule [of "[7 \<mapsto> \<lparr>time_ms = 500, num_guesses = 2\<rparr>]"
      "\<lparr>gameNumber = 7, timeMs = 500, numGuesses = 1\<rparr>"]
  by (simp add: Let_def api_solve_def select_time_ms_def insert_or_replace_def
      select_fastest_def fastest_json_def)

subsection \<open>Submissions one after the other\<close>

lemma submit_None: "tbl g = None \<Longrightarrow> submit g p tbl = tbl(g \<mapsto> row_of p)"
  by (simp add: submit_def api_solve_None row_of_def)

lemma submit_Some: "tbl g = Some r \<Longrightarrow> submit g p tbl = tbl(g \<mapsto> keep_faster p r)"
proof (cases "fst p < time_ms r")
  case True
  assume "tbl g = Some r"
  with True show ?thesis by (simp add: submit_def api_solve_faster keep_faster_def row_of_def)
next
  case False
  assume h: "tbl g = Some r"
  then have "tbl(g \<mapsto> r) = tbl" by (rule map_upd_triv)
  with False h show ?thesis by (simp add: submit_def api_solve_slower keep_faster_def)
qed

lemma submit_all_Some:
  "tbl g = Some r \<Longrightarrow> submit_all g ps tbl = tbl(g \<mapsto> fold keep_faster ps r)"
proof (induction ps arbitrary: tbl r)
  case Nil
  then show ?case by (simp add: submit_all_def map_upd_triv)
next
  case (Cons p ps)
  have "submit_all g (p # ps) tbl = submit_all g ps (submit g p tbl)"
    by (simp add: submit_all_def)
  also have "\<dots> = submit_all g ps (tbl(g \<mapsto> keep_faster p r))"
    using Cons.prems by (simp add: submit_Some)
  also have "\<dots> = (tbl(g \<mapsto> keep_faster p r))(g \<mapsto> fold keep_faster ps (keep_faster p r))"
    by (rule Cons.IH) simp
  finally show ?case by simp
qed

lemma submit_all_None:
  "tbl g = None \<Longrightarrow> submit_all g (p # ps) tbl = tbl(g \<mapsto> fold keep_faster ps (row_of p))"
proof -
  assume h: "tbl g = None"
  have "submit_all g (p # ps) tbl = submit_all g ps (tbl(g \<mapsto> row_of p))"
    using h by (simp add: submit_all_def submit_None)
  also have "\<dots> = (tbl(g \<mapsto> row_of p))(g \<mapsto> fold keep_faster ps (row_of p))"
    by (rule submit_all_Some) simp
  finally show ?thesis by simp
qed

lemma fold_keep_unbeaten:
  "\<forall>p \<in> set ps. time_ms r \<le> fst p \<Longrightarrow> fold keep_faster ps r = r"
  by (induction ps) (auto simp: keep_faster_def)

text \<open>Either the row stays, or the first of the fastest submissions takes its place.\<close>

lemma fold_keep_first:
  "fold keep_faster ps r =
     (if \<exists>p \<in> set ps. fst p < time_ms r then row_of (the (first_fastest ps)) else r)"
proof (induction ps arbitrary: r)
  case Nil
  then show ?case by simp
next
  case (Cons p ps)
  let ?m = "least_time (p # ps)"
  show ?case
  proof (cases "fst p < time_ms r")
    case True
    then have k: "keep_faster p r = row_of p" by (simp add: keep_faster_def)
    show ?thesis
    proof (cases "\<exists>q \<in> set ps. fst q < fst p")
      case True
      then obtain q where q: "q \<in> set ps" "fst q < fst p" by blast
      have "ps \<noteq> []" using q by auto
      then have m: "?m = min (fst p) (least_time ps)"
        by (simp add: least_time_def)
      have "least_time ps \<le> fst q" using q by (simp add: least_time_def)
      then have m2: "?m = least_time ps" "fst p \<noteq> least_time ps" using q m by auto
      then have "first_fastest (p # ps) = first_fastest ps"
        by (simp add: first_fastest_def)
      then show ?thesis using True \<open>fst p < time_ms r\<close> k Cons.IH [of "row_of p"]
        by (auto simp: row_of_def)
    next
      case False
      then have "?m = fst p"
        by (cases "ps = []") (auto simp: least_time_def min_def intro!: Min.boundedI)
      then have "first_fastest (p # ps) = Some p" by (simp add: first_fastest_def)
      then show ?thesis using False \<open>fst p < time_ms r\<close> k Cons.IH [of "row_of p"]
        by (auto simp: row_of_def)
    qed
  next
    case False
    then have k: "keep_faster p r = r" by (simp add: keep_faster_def)
    show ?thesis
    proof (cases "\<exists>q \<in> set ps. fst q < time_ms r")
      case True
      then obtain q where q: "q \<in> set ps" "fst q < time_ms r" by blast
      have "ps \<noteq> []" using q by auto
      then have m: "?m = min (fst p) (least_time ps)"
        by (simp add: least_time_def)
      have "least_time ps \<le> fst q" using q by (simp add: least_time_def)
      then have m2: "?m = least_time ps" "fst p \<noteq> least_time ps" using q m False by auto
      then have "first_fastest (p # ps) = first_fastest ps"
        by (simp add: first_fastest_def)
      then show ?thesis using True k Cons.IH [of r] by auto
    next
      case False
      then show ?thesis using \<open>\<not> fst p < time_ms r\<close> k Cons.IH [of r] by auto
    qed
  qed
qed

lemma first_fastest_Some:
  "ps \<noteq> [] \<Longrightarrow> \<exists>n. first_fastest ps = Some (least_time ps, n) \<and> (least_time ps, n) \<in> set ps"
proof -
  assume "ps \<noteq> []"
  then have "least_time ps \<in> set (map fst ps)"
    unfolding least_time_def by (intro Min_in) auto
  then obtain q where q: "q \<in> set ps" "fst q = least_time ps" by auto
  then have "find (\<lambda>p. fst p = least_time ps) ps \<noteq> None"
    unfolding find_None_iff by blast
  then obtain x where x: "find (\<lambda>p. fst p = least_time ps) ps = Some x" by auto
  then have "fst x = least_time ps \<and> x \<in> set ps"
    by (auto simp: find_Some_iff)
  then show ?thesis using x by (cases x) (auto simp: first_fastest_def)
qed

lemma least_time_Cons: "ps \<noteq> [] \<Longrightarrow> least_time (p # ps) = min (fst p) (least_time ps)"
  by (simp add: least_time_def)

lemma least_time_le: "q \<in> set ps \<Longrightarrow> least_time ps \<le> fst q"
  by (simp add: least_time_def)

lemma first_fastest_skip:
  assumes "q \<in> set ps" "fst q < fst p"
  shows "first_fastest (p # ps) = first_fastest ps"
proof -
  have "ps \<noteq> []" using assms by auto
  then have "least_time (p # ps) = min (fst p) (least_time ps)" by (rule least_time_Cons)
  moreover have "least_time ps \<le> fst q" using assms by (simp add: least_time_le)
  ultimately have "least_time (p # ps) = least_time ps" "fst p \<noteq> least_time ps"
    using assms by auto
  then show ?thesis by (simp add: first_fastest_def)
qed

lemma first_fastest_head:
  assumes "\<forall>q \<in> set ps. fst p \<le> fst q"
  shows "first_fastest (p # ps) = Some p"
proof -
  have "least_time (p # ps) = fst p"
    using assms by (cases "ps = []") (auto simp: least_time_def min_def intro!: Min.boundedI)
  then show ?thesis by (simp add: first_fastest_def)
qed

lemma fold_keep_head:
  "fold keep_faster ps (row_of p) = row_of (the (first_fastest (p # ps)))"
proof (cases "\<exists>q \<in> set ps. fst q < fst p")
  case True
  then obtain q where q: "q \<in> set ps" "fst q < fst p" by blast
  have "fold keep_faster ps (row_of p) = row_of (the (first_fastest ps))"
    using True by (simp add: fold_keep_first row_of_def)
  then show ?thesis using q by (simp add: first_fastest_skip)
next
  case False
  then have "\<forall>q \<in> set ps. fst p \<le> fst q" by auto
  then have "first_fastest (p # ps) = Some p" by (rule first_fastest_head)
  moreover have "fold keep_faster ps (row_of p) = row_of p"
    using False by (simp add: fold_keep_first row_of_def)
  ultimately show ?thesis by simp
qed

lemma submit_all_first_fastest:
  assumes "tbl g = None" "ps \<noteq> []"
  shows "submit_all g ps tbl = tbl(g \<mapsto> row_of (the (first_fastest ps)))"
proof -
  obtain p ps' where ps: "ps = p # ps'" using assms(2) by (cases ps) auto
  show ?thesis unfolding ps using assms(1) by (simp add: submit_all_None fold_keep_head)
qed

lemma least_time_mset:
  assumes "mset qs = mset ps"
  shows "least_time qs = least_time ps"
proof -
  have "set qs = set ps" using assms by (rule mset_eq_setD)
  then have "fst ` set qs = fst ` set ps" by (rule arg_cong)
  then have "Min (fst ` set qs) = Min (fst ` set ps)" by (rule arg_cong)
  then show ?thesis unfolding least_time_def set_map .
qed

text \<open>
  C4, as stated: every order of submitting the same pairs leaves the same record. Two
  submissions with equal times and different numbers of guesses leave the one that
  came first.
\<close>

theorem submit_all_ties_counterexample:
  "mset [(300, 6), (300, 4)] = mset [(300, 4), (300 :: int, 6 :: int)]
   \<and> submit_all 1 [(300, 4), (300, 6)] Map.empty 1 = Some \<lparr>time_ms = 300, num_guesses = 4\<rparr>
   \<and> submit_all 1 [(300, 6), (300, 4)] Map.empty 1 = Some \<lparr>time_ms = 300, num_guesses = 6\<rparr>
   \<and> submit_all 1 [(300, 4), (300, 6)] Map.empty 1 \<noteq> submit_all 1 [(300, 6), (300, 4)] Map.empty 1"
  by (simp add: submit_all_def submit_def api_solve_def select_time_ms_def insert_or_replace_def)

text \<open>
  C4, amended. Submitting a non-empty list of pairs, one after the other, for a game
  number without a row leaves the least submitted time, with the number of guesses of
  the first submitted pair that has this time. Every order of the same pairs leaves
  the same time; it leaves the same row when all pairs with the least time carry the
  same number of guesses.
\<close>

theorem submit_all_any_order:
  assumes "tbl g = None" and "ps \<noteq> []" and "mset qs = mset ps"
  shows "(\<exists>n. first_fastest ps = Some (least_time ps, n)
            \<and> submit_all g ps tbl g = Some \<lparr>time_ms = least_time ps, num_guesses = n\<rparr>)
         \<and> map_option time_ms (submit_all g qs tbl g) = Some (least_time ps)
         \<and> ((\<forall>p \<in> set ps. \<forall>q \<in> set ps. fst p = least_time ps \<and> fst q = least_time ps
                \<longrightarrow> snd p = snd q)
              \<longrightarrow> submit_all g qs tbl = submit_all g ps tbl)"
proof -
  have sets: "set qs = set ps" using assms(3) by (rule mset_eq_setD)
  have qs: "qs \<noteq> []"
  proof
    assume "qs = []"
    then have "mset ps = {#}" using assms(3) by simp
    then show False using assms(2) by simp
  qed
  have lt: "least_time qs = least_time ps" using assms(3) by (rule least_time_mset)
  obtain n where n: "first_fastest ps = Some (least_time ps, n)" "(least_time ps, n) \<in> set ps"
    using first_fastest_Some [OF assms(2)] by blast
  obtain n' where "first_fastest qs = Some (least_time qs, n')" "(least_time qs, n') \<in> set qs"
    using first_fastest_Some [OF qs] by blast
  then have n': "first_fastest qs = Some (least_time ps, n')" "(least_time ps, n') \<in> set ps"
    unfolding lt sets by blast+
  have a: "submit_all g ps tbl = tbl(g \<mapsto> row_of (least_time ps, n))"
    unfolding submit_all_first_fastest [of tbl g ps, OF assms(1,2)] n(1) option.sel ..
  have b: "submit_all g qs tbl = tbl(g \<mapsto> row_of (least_time ps, n'))"
    unfolding submit_all_first_fastest [of tbl g qs, OF assms(1) qs] n'(1) option.sel ..
  have c: "n' = n"
    if h: "\<forall>p \<in> set ps. \<forall>q \<in> set ps. fst p = least_time ps \<and> fst q = least_time ps
                \<longrightarrow> snd p = snd q"
  proof -
    from h n'(2) have "\<forall>q \<in> set ps. fst (least_time ps, n') = least_time ps \<and> fst q = least_time ps
                \<longrightarrow> snd (least_time ps, n') = snd q"
      by (rule bspec)
    from this n(2)
    have "fst (least_time ps, n') = least_time ps \<and> fst (least_time ps, n) = least_time ps
            \<longrightarrow> snd (least_time ps, n') = snd (least_time ps, n)"
      by (rule bspec)
    then show ?thesis by simp
  qed
  have 1: "\<exists>n. first_fastest ps = Some (least_time ps, n)
            \<and> submit_all g ps tbl g = Some \<lparr>time_ms = least_time ps, num_guesses = n\<rparr>"
  proof (intro exI conjI)
    show "first_fastest ps = Some (least_time ps, n)" by (rule n(1))
    show "submit_all g ps tbl g = Some \<lparr>time_ms = least_time ps, num_guesses = n\<rparr>"
      unfolding a by (simp add: row_of_def)
  qed
  have 2: "map_option time_ms (submit_all g qs tbl g) = Some (least_time ps)"
    unfolding b by (simp add: row_of_def)
  have 3: "(\<forall>p \<in> set ps. \<forall>q \<in> set ps. fst p = least_time ps \<and> fst q = least_time ps
                \<longrightarrow> snd p = snd q)
              \<longrightarrow> submit_all g qs tbl = submit_all g ps tbl"
  proof
    assume "\<forall>p \<in> set ps. \<forall>q \<in> set ps. fst p = least_time ps \<and> fst q = least_time ps
                \<longrightarrow> snd p = snd q"
    then have "n' = n" by (rule c)
    then show "submit_all g qs tbl = submit_all g ps tbl" unfolding a b by simp
  qed
  from 1 2 3 show ?thesis by (intro conjI)
qed

theorem submit_all_any_order_witness:
  "Map.empty (1::int) = None \<and> [(500, 3), (300, 4), (700, 2)] \<noteq> ([] :: (int \<times> int) list)
   \<and> mset [(700, 2), (300, 4), (500, 3)] = mset [(500, 3), (300, 4), (700, 2 :: int)]
   \<and> submit_all 1 [(500, 3), (300, 4), (700, 2)] Map.empty 1 = Some \<lparr>time_ms = 300, num_guesses = 4\<rparr>
   \<and> submit_all 1 [(700, 2), (300, 4), (500, 3)] Map.empty = submit_all 1 [(500, 3), (300, 4), (700, 2)] Map.empty"
proof -
  have h1: "Map.empty (1::int) = (None :: row option)" by simp
  have h2: "[(500, 3), (300, 4), (700, 2)] \<noteq> ([] :: (int \<times> int) list)" by simp
  have h3: "mset [(700, 2), (300, 4), (500, 3)] = mset [(500, 3), (300, 4), (700 :: int, 2 :: int)]"
    by simp
  have lt: "least_time [(500, 3), (300, 4), (700, 2)] = 300" by (simp add: least_time_def)
  show ?thesis
    using submit_all_any_order [of Map.empty 1 "[(500, 3), (300, 4), (700, 2)]"
        "[(700, 2), (300, 4), (500, 3)]", OF h1 h2 h3] h3
    by (simp add: lt first_fastest_def)
qed

section \<open>No validation in \<open>POST /api/solve\<close>\<close>

text \<open>
  C10, as stated: a time that is zero or negative is inserted and stays the stored
  fastest row for good. A stored \<open>-5\<close> is replaced by a later \<open>-6\<close>, and \<open>-5\<close> is not
  stored over a row that holds \<open>-9\<close>.
\<close>

theorem stored_nonpositive_counterexample:
  "submit_all 1 [(- 6, 1)]
     (snd (api_solve Map.empty \<lparr>gameNumber = 1, timeMs = - 5, numGuesses = 0\<rparr>)) 1
     = Some \<lparr>time_ms = - 6, num_guesses = 1\<rparr>
   \<and> snd (api_solve [1 \<mapsto> \<lparr>time_ms = - 9, num_guesses = 2\<rparr>]
            \<lparr>gameNumber = 1, timeMs = - 5, numGuesses = 0\<rparr>) 1
     = Some \<lparr>time_ms = - 9, num_guesses = 2\<rparr>"
  by (simp add: submit_all_def submit_def api_solve_def select_time_ms_def
      insert_or_replace_def)

text \<open>
  C10, amended. Whatever integers the request carries, the handler answers with the
  stored fastest row, never with an error, and applies the update rule as it stands.
  So a time of any sign, zero and negative included, is stored when the game number
  has no row or a row with a strictly greater time, and is not stored otherwise. Once
  stored it stays through all later submissions whose time is not strictly less, in
  particular a stored time of zero or less through all later times of zero or more;
  a later submission with a strictly lesser time replaces it.
\<close>

theorem api_solve_unvalidated:
  "(\<exists>a b. fst (api_solve tbl rq) = Responded (Json_fastest (Some a) (Some b)))
   \<and> snd (api_solve tbl rq) =
       (case tbl (gameNumber rq) of
          None \<Rightarrow> insert_or_replace tbl (gameNumber rq) (timeMs rq) (numGuesses rq)
        | Some r \<Rightarrow>
            if timeMs rq < time_ms r
            then insert_or_replace tbl (gameNumber rq) (timeMs rq) (numGuesses rq)
            else tbl)
   \<and> (tbl (gameNumber rq) = None
        \<or> (\<exists>r. tbl (gameNumber rq) = Some r \<and> timeMs rq < time_ms r) \<longrightarrow>
        snd (api_solve tbl rq) (gameNumber rq)
          = Some \<lparr>time_ms = timeMs rq, num_guesses = numGuesses rq\<rparr>
        \<and> ((\<forall>p \<in> set later. timeMs rq \<le> fst p) \<longrightarrow>
             submit_all (gameNumber rq) later (snd (api_solve tbl rq)) (gameNumber rq)
               = Some \<lparr>time_ms = timeMs rq, num_guesses = numGuesses rq\<rparr>)
        \<and> (timeMs rq \<le> 0 \<and> (\<forall>p \<in> set later. 0 \<le> fst p) \<longrightarrow>
             submit_all (gameNumber rq) later (snd (api_solve tbl rq)) (gameNumber rq)
               = Some \<lparr>time_ms = timeMs rq, num_guesses = numGuesses rq\<rparr>)
        \<and> (fst q < timeMs rq \<longrightarrow>
             submit (gameNumber rq) q (snd (api_solve tbl rq)) (gameNumber rq)
               = Some (row_of q)))
   \<and> (\<forall>r. tbl (gameNumber rq) = Some r \<and> time_ms r \<le> timeMs rq \<longrightarrow>
        snd (api_solve tbl rq) = tbl)"
proof -
  let ?g = "gameNumber rq"
  let ?r = "\<lparr>time_ms = timeMs rq, num_guesses = numGuesses rq\<rparr>"
  let ?t = "tbl(?g \<mapsto> ?r)"
  have 1: "\<exists>a b. fst (api_solve tbl rq) = Responded (Json_fastest (Some a) (Some b))"
    by (cases "tbl ?g")
       (auto simp: api_solve_def select_time_ms_def insert_or_replace_def select_fastest_def
          fastest_json_def)
  have 2: "snd (api_solve tbl rq) =
       (case tbl ?g of
          None \<Rightarrow> insert_or_replace tbl ?g (timeMs rq) (numGuesses rq)
        | Some r \<Rightarrow>
            if timeMs rq < time_ms r
            then insert_or_replace tbl ?g (timeMs rq) (numGuesses rq)
            else tbl)"
    by (cases "tbl ?g")
       (auto simp: api_solve_def select_time_ms_def insert_or_replace_def)
  have 3: "snd (api_solve tbl rq) ?g = Some ?r
        \<and> ((\<forall>p \<in> set later. timeMs rq \<le> fst p) \<longrightarrow>
             submit_all ?g later (snd (api_solve tbl rq)) ?g = Some ?r)
        \<and> (timeMs rq \<le> 0 \<and> (\<forall>p \<in> set later. 0 \<le> fst p) \<longrightarrow>
             submit_all ?g later (snd (api_solve tbl rq)) ?g = Some ?r)
        \<and> (fst q < timeMs rq \<longrightarrow>
             submit ?g q (snd (api_solve tbl rq)) ?g = Some (row_of q))"
    if h: "tbl ?g = None \<or> (\<exists>r. tbl ?g = Some r \<and> timeMs rq < time_ms r)"
  proof -
    have s: "snd (api_solve tbl rq) = ?t"
      using h by (auto simp: api_solve_None api_solve_faster)
    have all: "submit_all ?g later ?t = ?t(?g \<mapsto> fold keep_faster later ?r)"
      by (rule submit_all_Some) simp
    have stay: "submit_all ?g later ?t ?g = Some ?r"
      if "\<forall>p \<in> set later. timeMs rq \<le> fst p"
    proof -
      from that have "\<forall>p \<in> set later. time_ms ?r \<le> fst p" by simp
      then have "fold keep_faster later ?r = ?r" by (rule fold_keep_unbeaten)
      then show ?thesis by (simp add: all)
    qed
    have stay0: "submit_all ?g later ?t ?g = Some ?r"
      if "timeMs rq \<le> 0 \<and> (\<forall>p \<in> set later. 0 \<le> fst p)"
    proof -
      from that have "\<forall>p \<in> set later. timeMs rq \<le> fst p" by auto
      then show ?thesis by (rule stay)
    qed
    have "submit ?g q ?t = ?t(?g \<mapsto> keep_faster q ?r)"
      by (rule submit_Some) simp
    then have go: "submit ?g q ?t ?g = Some (row_of q)" if "fst q < timeMs rq"
      using that by (simp add: keep_faster_def)
    show ?thesis using stay stay0 go by (simp add: s)
  qed
  have 4: "\<forall>r. tbl ?g = Some r \<and> time_ms r \<le> timeMs rq \<longrightarrow> snd (api_solve tbl rq) = tbl"
    by (simp add: api_solve_slower)
  from 1 2 3 4 show ?thesis by blast
qed

theorem api_solve_unvalidated_witness:
  "Map.empty (- 3 :: int) = (None :: row option)
   \<and> - 5 \<le> (0::int) \<and> (0::int) \<le> fst (300, 4 :: int) \<and> (0::int) \<le> fst (0, 1 :: int)
   \<and> fst (api_solve Map.empty \<lparr>gameNumber = - 3, timeMs = - 5, numGuesses = 0\<rparr>)
        = Responded (Json_fastest (Some (- 5)) (Some 0))
   \<and> submit_all (- 3) [(300, 4), (0, 1)]
        (snd (api_solve Map.empty \<lparr>gameNumber = - 3, timeMs = - 5, numGuesses = 0\<rparr>)) (- 3)
        = Some \<lparr>time_ms = - 5, num_guesses = 0\<rparr>
   \<and> fst (- 6, 1 :: int) < (- 5 :: int)
   \<and> submit (- 3) (- 6, 1)
        (snd (api_solve Map.empty \<lparr>gameNumber = - 3, timeMs = - 5, numGuesses = 0\<rparr>)) (- 3)
        = Some \<lparr>time_ms = - 6, num_guesses = 1\<rparr>
   \<and> [- 3 \<mapsto> \<lparr>time_ms = - 9, num_guesses = 2\<rparr>] (- 3)
        = Some \<lparr>time_ms = - 9, num_guesses = 2\<rparr>
   \<and> - 9 \<le> (- 5 :: int)
   \<and> snd (api_solve [- 3 \<mapsto> \<lparr>time_ms = - 9, num_guesses = 2\<rparr>]
            \<lparr>gameNumber = - 3, timeMs = - 5, numGuesses = 0\<rparr>)
        = [- 3 \<mapsto> \<lparr>time_ms = - 9, num_guesses = 2\<rparr>]"
  using api_solve_unvalidated [of Map.empty "\<lparr>gameNumber = - 3, timeMs = - 5, numGuesses = 0\<rparr>"
      "[(300, 4), (0, 1)]" "(- 6, 1)"]
    api_solve_unvalidated [of "[- 3 \<mapsto> \<lparr>time_ms = - 9, num_guesses = 2\<rparr>]"
      "\<lparr>gameNumber = - 3, timeMs = - 5, numGuesses = 0\<rparr>" "[]" "(0, 0)"]
  by (simp add: row_of_def api_solve_def select_time_ms_def insert_or_replace_def
      select_fastest_def fastest_json_def)

section \<open>Two submissions in flight\<close>

lemma schedules_list:
  "schedules =
    [[First, First, First, Second, Second, Second],
     [First, First, Second, First, Second, Second],
     [First, First, Second, Second, First, Second],
     [First, First, Second, Second, Second, First],
     [First, Second, First, First, Second, Second],
     [First, Second, First, Second, First, Second],
     [First, Second, First, Second, Second, First],
     [First, Second, Second, First, First, Second],
     [First, Second, Second, First, Second, First],
     [First, Second, Second, Second, First, First],
     [Second, First, First, First, Second, Second],
     [Second, First, First, Second, First, Second],
     [Second, First, First, Second, Second, First],
     [Second, First, Second, First, First, Second],
     [Second, First, Second, First, Second, First],
     [Second, First, Second, Second, First, First],
     [Second, Second, First, First, First, Second],
     [Second, Second, First, First, Second, First],
     [Second, Second, First, Second, First, First],
     [Second, Second, Second, First, First, First]]"
  by (simp add: schedules_def)

lemmas solve_defs = select_time_ms_def insert_or_replace_def select_fastest_def fastest_json_def

lemma run_Nil: "run rq1 rq2 [] tbl0 = \<lparr>pc1 = Received, pc2 = Received, table = tbl0\<rparr>"
  by (simp add: run_def)

text \<open>
  C5, as stated: under every interleaving of the statements of two calls for one game
  number, submissions of 420 and 419 leave 419. When both calls select before either
  writes, and the call with 420 writes last, 420 stays.
\<close>

theorem lost_update_counterexample:
  "[First, Second, Second, First, First, Second] \<in> set schedules
   \<and> map_option time_ms
        (table (run \<lparr>gameNumber = 1, timeMs = 420, numGuesses = 3\<rparr>
                    \<lparr>gameNumber = 1, timeMs = 419, numGuesses = 4\<rparr>
                    [First, Second, Second, First, First, Second] Map.empty) 1) = Some 420"
  by (simp add: schedules_list run_def solve_defs)

text \<open>
  C5, amended. Two calls for one game number without a row: under every interleaving
  of their statements both calls respond and one of the two submissions is stored. The
  stored time is the least of the two whenever one call's select and write both run
  before the other call's select. When both calls select before either writes, both
  write; the third statement to run is then the first write, and the row of the other
  call, written later, is what stays, whichever time is less.
\<close>

theorem two_solves_in_flight:
  assumes "gameNumber rq1 = g" and "gameNumber rq2 = g" and "tbl0 g = None"
  shows "\<forall>sched \<in> set schedules.
           (\<exists>r1 r2. pc1 (run rq1 rq2 sched tbl0) = Responded r1
                    \<and> pc2 (run rq1 rq2 sched tbl0) = Responded r2)
           \<and> (table (run rq1 rq2 sched tbl0) g = Some (row_of (timeMs rq1, numGuesses rq1))
              \<or> table (run rq1 rq2 sched tbl0) g = Some (row_of (timeMs rq2, numGuesses rq2)))
           \<and> (take 2 sched = [First, First] \<or> take 2 sched = [Second, Second] \<longrightarrow>
                map_option time_ms (table (run rq1 rq2 sched tbl0) g)
                  = Some (min (timeMs rq1) (timeMs rq2)))
           \<and> (take 2 sched = [First, Second] \<or> take 2 sched = [Second, First] \<longrightarrow>
                table (run rq1 rq2 sched tbl0) g
                  = Some (if sched ! 2 = First then row_of (timeMs rq2, numGuesses rq2)
                          else row_of (timeMs rq1, numGuesses rq1)))"
  unfolding schedules_list using assms
  by (simp add: run_def solve_defs row_of_def min_def)

theorem two_solves_in_flight_witness:
  "(let rq1 = \<lparr>gameNumber = 1, timeMs = 420, numGuesses = 3\<rparr>;
        rq2 = \<lparr>gameNumber = 1, timeMs = 419, numGuesses = 4\<rparr>
    in gameNumber rq1 = 1 \<and> gameNumber rq2 = 1 \<and> Map.empty (1::int) = (None :: row option)
       \<and> [First, First, Second, First, Second, Second] \<in> set schedules
       \<and> take 2 [First, First, Second, First, Second, Second] = [First, First]
       \<and> map_option time_ms
            (table (run rq1 rq2 [First, First, Second, First, Second, Second] Map.empty) 1)
           = Some 419
       \<and> [Second, First, Second, Second, First, First] \<in> set schedules
       \<and> take 2 [Second, First, Second, Second, First, First] = [Second, First]
       \<and> table (run rq1 rq2 [Second, First, Second, Second, First, First] Map.empty) 1
           = Some \<lparr>time_ms = 420, num_guesses = 3\<rparr>)"
proof -
  have h1: "gameNumber \<lparr>gameNumber = 1, timeMs = 420, numGuesses = 3\<rparr> = 1" by simp
  have h2: "gameNumber \<lparr>gameNumber = 1, timeMs = 419, numGuesses = 4\<rparr> = 1" by simp
  have h3: "Map.empty (1::int) = (None :: row option)" by simp
  have m1: "[First, First, Second, First, Second, Second] \<in> set schedules"
    by (simp add: schedules_list)
  have m2: "[Second, First, Second, Second, First, First] \<in> set schedules"
    by (simp add: schedules_list)
  note t = two_solves_in_flight [of "\<lparr>gameNumber = 1, timeMs = 420, numGuesses = 3\<rparr>" 1
      "\<lparr>gameNumber = 1, timeMs = 419, numGuesses = 4\<rparr>" Map.empty, OF h1 h2 h3]
  show ?thesis
    using t [THEN bspec, OF m1] t [THEN bspec, OF m2] m1 m2
    by (simp add: Let_def row_of_def)
qed

section \<open>The daily word\<close>

lemma ToInt32_sint: "ToInt32 x = sint (word_of_int x :: 32 word)"
  by (simp add: ToInt32_def sint_sbintrunc' signed_take_bit_eq_take_bit_shift take_bit_eq_mod)

lemma word_of_int_ToInt32: "(word_of_int (ToInt32 x) :: 32 word) = word_of_int x"
  by (simp add: ToInt32_sint)

lemma hash_step_31: "hash_step h c = ToInt32 (h * 31 + charCode c)"
proof -
  have "(word_of_int ((shl32 h 5 - h) + charCode c) :: 32 word)
          = word_of_int (h * 31 + charCode c)"
    by (simp add: shl32_def word_of_int_ToInt32)
  then show ?thesis by (simp only: hash_step_def ToInt32_sint)
qed

lemma hash_step_word:
  "hash_step (sint w) c = sint (w * 31 + of_nat (of_char c) :: 32 word)"
  by (simp add: hash_step_31 ToInt32_sint charCode_def)

lemma foldl_hash_step:
  "foldl hash_step (sint w) s = sint (foldl (\<lambda>h c. h * 31 + of_nat (of_char c)) (w :: 32 word) s)"
proof (induction s arbitrary: w)
  case Nil
  show ?case by simp
next
  case (Cons c s)
  show ?case by (simp only: foldl_Cons hash_step_word Cons.IH)
qed

lemma hash_loop_hash31: "hash_loop s = sint (hash31 s)"
  using foldl_hash_step [of 0 s] by (simp add: hash_loop_def hash31_def)

lemma digits_nonempty: "digits n \<noteq> []"
  by (subst digits.simps) simp

lemma digit_char_zero:
  assumes "d < 10"
  shows "digit_char d = CHR ''0'' \<longleftrightarrow> d = 0"
proof -
  have "(of_char (digit_char d) :: nat) = 48 + d"
    using assms by (simp add: digit_char_def)
  moreover have "(of_char (CHR ''0'') :: nat) = 48" by simp
  moreover have "digit_char d = CHR ''0''
                   \<longleftrightarrow> (of_char (digit_char d) :: nat) = of_char (CHR ''0'')"
    by (simp only: of_char_eq_iff)
  ultimately show ?thesis by simp
qed

lemma nat_mod_length:
  assumes "WORDS \<noteq> []"
  shows "nat (\<bar>h\<bar> mod int (length WORDS)) < length WORDS"
proof -
  have pos: "0 < int (length WORDS)" using assms by simp
  have "\<bar>h\<bar> mod int (length WORDS) < int (length WORDS)"
    using pos by (rule pos_mod_bound)
  moreover have "0 \<le> \<bar>h\<bar> mod int (length WORDS)"
    using pos by (rule pos_mod_sign)
  ultimately show ?thesis by linarith
qed

lemma digits_no_leading_zero: "0 < n \<Longrightarrow> hd (digits n) \<noteq> CHR ''0''"
proof (induction n rule: digits.induct)
  case (1 n)
  show ?case
  proof (cases "n < 10")
    case True
    then show ?thesis using "1.prems" by (subst digits.simps) (simp add: digit_char_zero)
  next
    case False
    then have "0 < n div 10" by simp
    then have "hd (digits (n div 10)) \<noteq> CHR ''0''" using False by (intro "1.IH") auto
    then show ?thesis using False by (subst digits.simps) (simp add: digits_nonempty)
  qed
qed

lemma getDailyWord_in_WORDS:
  assumes "WORDS \<noteq> []"
  shows "\<exists>w \<in> set WORDS. getDailyWord WORDS now = Some w"
proof -
  let ?i = "nat (\<bar>hash_loop (dateStr now)\<bar> mod int (length WORDS))"
  have "?i < length WORDS" using assms by (rule nat_mod_length)
  then have "WORDS ! ?i \<in> set WORDS" by (rule nth_mem)
  moreover have "getDailyWord WORDS now = Some (WORDS ! ?i)"
    using assms by (simp add: getDailyWord_def)
  ultimately show ?thesis by blast
qed

lemma dateStr_Day:
  assumes "Day now = Day now'"
  shows "dateStr now = dateStr now'"
proof -
  have 1: "era_day now = era_day now'"
    by (simp only: era_day_def assms)
  have 2: "era_year now = era_year now'"
    by (simp only: era_year_def 1)
  have 3: "march_day now = march_day now'"
    by (simp only: march_day_def 1 2)
  have 4: "march_month now = march_month now'"
    by (simp only: march_month_def 3)
  have 5: "getUTCMonth now = getUTCMonth now'"
    by (simp only: getUTCMonth_def 4)
  have 6: "getUTCDate now = getUTCDate now'"
    by (simp only: getUTCDate_def 3 4)
  have 7: "getUTCFullYear now = getUTCFullYear now'"
    by (simp only: getUTCFullYear_def 2 5 assms)
  show ?thesis
    by (simp only: dateStr_def 5 6 7)
qed

text \<open>
  C7. The date string is year, month (from 1) and day of the UTC date, joined by
  hyphens, each rendered without padding. One iteration of the loop is
  \<open>hash * 31 + charCode\<close> brought back to 32 signed bits, and the loop computes the
  recurrence of the specification bit for bit. The word returned is the entry of the
  word list at \<open>abs(hash) % N\<close>, an index within the list. Two times within the same UTC
  day yield the same word.
\<close>

theorem getDailyWord_selection:
  "dateStr now = toString (getUTCFullYear now) @ ''-'' @ toString (getUTCMonth now + 1)
                   @ ''-'' @ toString (getUTCDate now)
   \<and> (0 < n \<longrightarrow> hd (toString n) \<noteq> CHR ''0'')
   \<and> hash_step h c = ToInt32 (h * 31 + charCode c)
   \<and> hash_loop s = sint (hash31 s)
   \<and> (WORDS \<noteq> [] \<longrightarrow>
        getDailyWord WORDS now
          = Some (WORDS ! nat (\<bar>sint (hash31 (dateStr now))\<bar> mod int (length WORDS)))
        \<and> nat (\<bar>sint (hash31 (dateStr now))\<bar> mod int (length WORDS)) < length WORDS)
   \<and> (Day now = Day now' \<longrightarrow> getDailyWord WORDS now = getDailyWord WORDS now')"
proof (intro conjI impI)
  show "dateStr now = toString (getUTCFullYear now) @ ''-'' @ toString (getUTCMonth now + 1)
                   @ ''-'' @ toString (getUTCDate now)"
    by (simp add: dateStr_def)
  show "hd (toString n) \<noteq> CHR ''0''" if "0 < n"
    using that by (simp add: toString_def digits_no_leading_zero)
  show "hash_step h c = ToInt32 (h * 31 + charCode c)" by (rule hash_step_31)
  show "hash_loop s = sint (hash31 s)" by (rule hash_loop_hash31)
  show "getDailyWord WORDS now
          = Some (WORDS ! nat (\<bar>sint (hash31 (dateStr now))\<bar> mod int (length WORDS)))"
    if "WORDS \<noteq> []"
    using that by (simp add: getDailyWord_def hash_loop_hash31)
  show "nat (\<bar>sint (hash31 (dateStr now))\<bar> mod int (length WORDS)) < length WORDS"
    if "WORDS \<noteq> []"
    using that by (rule nat_mod_length)
  show "getDailyWord WORDS now = getDailyWord WORDS now'" if "Day now = Day now'"
    using dateStr_Day [OF that] by (simp add: getDailyWord_def)
qed

lemma example_day:
  "getDailyWord [''crane'', ''erase'', ''speed''] 1793664000000 = Some ''erase''"
  by code_simp

lemma example_hash: "hash_loop ''2026-11-3'' = 591692209"
  by code_simp

lemma example_dateStr: "dateStr 1793664000000 = ''2026-11-3''"
  by code_simp

theorem getDailyWord_selection_witness:
  "(0::int) < 11 \<and> hd (toString 11) \<noteq> CHR ''0''
   \<and> [''crane'', ''erase'', ''speed''] \<noteq> []
   \<and> dateStr 1793664000000 = ''2026-11-3''
   \<and> sint (hash31 ''2026-11-3'') = 591692209
   \<and> getDailyWord [''crane'', ''erase'', ''speed''] 1793664000000 = Some ''erase''
   \<and> Day 1793664000000 = Day (1793664000000 + 5000)
   \<and> getDailyWord [''crane'', ''erase'', ''speed''] (1793664000000 + 5000) = Some ''erase''"
proof -
  note t = getDailyWord_selection [of 1793664000000 11 0 "CHR ''a''" "''2026-11-3''"
      "[''crane'', ''erase'', ''speed'']" "1793664000000 + 5000"]
  have d: "Day 1793664000000 = Day (1793664000000 + 5000)"
    by (simp add: Day_def msPerDay_def)
  have "hd (toString 11) \<noteq> CHR ''0''" using t by simp
  moreover have "sint (hash31 ''2026-11-3'') = 591692209"
    using t example_hash by simp
  moreover have "getDailyWord [''crane'', ''erase'', ''speed''] (1793664000000 + 5000)
                   = Some ''erase''"
    using t d example_day by simp
  ultimately show ?thesis using d example_day example_dateStr by simp
qed

section \<open>What the loops of \<open>evaluate\<close> maintain\<close>

lemma js_get_in: "i < length xs \<Longrightarrow> js_get xs i = xs ! i"
  by (simp add: js_get_def)

lemma js_set_in: "i < length xs \<Longrightarrow> js_set xs i v = xs[i := Some v]"
  by (simp add: js_set_def)

lemma first_index_Some:
  "first_index xs c = Some idx \<Longrightarrow> idx < length xs \<and> xs ! idx = Some c"
proof (induction xs arbitrary: idx)
  case Nil
  then show ?case by simp
next
  case (Cons x xs)
  show ?case
  proof (cases "x = Some c")
    case True
    with Cons.prems show ?thesis by simp
  next
    case False
    with Cons.prems obtain j where j: "first_index xs c = Some j" "idx = Suc j" by auto
    from Cons.IH [OF j(1)] j(2) show ?thesis by simp
  qed
qed

lemma filter_update_length:
  "i < length xs \<Longrightarrow>
   length (filter P (xs[i := y])) + (if P (xs ! i) then 1 else 0)
     = length (filter P xs) + (if P y then 1 else 0)"
proof (induction xs arbitrary: i)
  case Nil
  then show ?case by simp
next
  case (Cons x xs)
  show ?case
  proof (cases i)
    case 0
    then show ?thesis by simp
  next
    case (Suc j)
    with Cons.prems have "j < length xs" by simp
    from Cons.IH [OF this] Suc show ?thesis by simp
  qed
qed

lemma marked_update:
  assumes "i < length g" "length r = length g" "r ! i = Absent" "t \<noteq> Absent"
  shows "marked c g (r[i := t]) = marked c g r + (if g ! i = c then 1 else 0)"
proof -
  let ?P = "\<lambda>(x, t). x = c \<and> t \<noteq> Absent"
  have z: "zip g (r[i := t]) = (zip g r)[i := (g ! i, t)]"
    using zip_update [of g i "g ! i" r t] by simp
  have len: "i < length (zip g r)" using assms by simp
  have nth: "zip g r ! i = (g ! i, Absent)" using assms by simp
  from filter_update_length [OF len, of ?P "(g ! i, t)"] nth assms(4)
  show ?thesis by (simp add: marked_def z)
qed

lemma count_update:
  assumes "idx < length al" "al ! idx = Some x" "c \<noteq> CHR ''_''"
  shows "count_list (al[idx := Some (CHR ''_'')]) (Some c) + (if x = c then 1 else 0)
           = count_list al (Some c)"
proof -
  from filter_update_length [OF assms(1), of "(=) (Some c)" "Some (CHR ''_'')"] assms(2,3)
  show ?thesis by (auto simp: count_list_eq_length_filter)
qed

lemma counts_ok_take:
  assumes ok: "counts_ok g a s" and g: "length g = 5"
    and i: "i < 5" "result s ! i = Absent"
    and idx: "idx < 5" "answerLetters s ! idx = Some (g ! i)"
    and t: "t \<noteq> Absent"
  shows "counts_ok g a (s\<lparr>result := (result s)[i := t],
                          answerLetters := (answerLetters s)[idx := Some (CHR ''_'')]\<rparr>)"
proof -
  have lens: "length (result s) = 5" "length (answerLetters s) = 5" "length (guessLetters s) = 5"
    using ok by (simp_all add: counts_ok_def)
  have "marked c g ((result s)[i := t]) + count_list ((answerLetters s)[idx := Some (CHR ''_'')]) (Some c)
          = count_list a c" if c: "c \<noteq> CHR ''_''" for c
  proof -
    have m: "marked c g ((result s)[i := t]) = marked c g (result s) + (if g ! i = c then 1 else 0)"
      using i g lens t by (intro marked_update) simp_all
    have k: "count_list ((answerLetters s)[idx := Some (CHR ''_'')]) (Some c) + (if g ! i = c then 1 else 0)
              = count_list (answerLetters s) (Some c)"
      using idx lens c by (intro count_update) simp_all
    have "marked c g (result s) + count_list (answerLetters s) (Some c) = count_list a c"
      using ok c by (simp add: counts_ok_def)
    with m k show ?thesis by simp
  qed
  then show ?thesis using lens by (simp add: counts_ok_def)
qed


lemma marked_all_absent: "marked c g (replicate n Absent) = 0"
proof -
  have "\<forall>p \<in> set (zip g (replicate n Absent)). \<not> (case p of (x, t) \<Rightarrow> x = c \<and> t \<noteq> Absent)"
  proof
    fix p assume p: "p \<in> set (zip g (replicate n Absent))"
    obtain x t where xt: "p = (x, t)" by (cases p)
    with p have "t \<in> set (replicate n Absent)" by (auto dest: set_zip_rightD)
    then have "t = Absent" by simp
    with xt show "\<not> (case p of (x, t) \<Rightarrow> x = c \<and> t \<noteq> Absent)" by simp
  qed
  then show ?thesis by (simp add: marked_def filter_empty_conv)
qed

lemma count_list_map_Some: "count_list (map Some xs) (Some c) = count_list xs c"
  by (induction xs) simp_all

lemma pass1_init:
  assumes "length g = 5" "length a = 5"
  shows "pass1_inv g a 0 (init_state g a)"
proof -
  have "counts_ok g a (init_state g a)"
    using assms by (simp add: counts_ok_def init_state_def marked_all_absent count_list_map_Some)
  moreover have "\<forall>i<5. result (init_state g a) ! i = Absent
                   \<and> guessLetters (init_state g a) ! i = Some (g ! i)
                   \<and> answerLetters (init_state g a) ! i = Some (a ! i)"
    using assms by (simp add: init_state_def)
  ultimately show ?thesis by (simp add: pass1_inv_def)
qed

lemma pass1_step_inv:
  assumes n: "n < 5" and g: "length g = 5" and inv: "pass1_inv g a n s"
  shows "pass1_inv g a (Suc n) (pass1_step n s)"
proof -
  have ok: "counts_ok g a s" using inv by (simp add: pass1_inv_def)
  then have lens: "length (result s) = 5" "length (answerLetters s) = 5" "length (guessLetters s) = 5"
    by (simp_all add: counts_ok_def)
  have pt: "\<And>i. i < 5 \<Longrightarrow> (if i < n \<and> g ! i = a ! i
               then result s ! i = Correct \<and> guessLetters s ! i = Some (CHR ''_'')
               else result s ! i = Absent \<and> guessLetters s ! i = Some (g ! i)
                    \<and> answerLetters s ! i = Some (a ! i))"
    using inv by (simp add: pass1_inv_def)
  have at_n: "result s ! n = Absent" "guessLetters s ! n = Some (g ! n)"
    "answerLetters s ! n = Some (a ! n)"
    using pt [OF n] by simp_all
  show ?thesis
  proof (cases "g ! n = a ! n")
    case False
    then have same: "pass1_step n s = s"
      using n lens at_n by (simp add: pass1_step_def js_get_in)
    have "\<And>i. i < 5 \<Longrightarrow> (if i < Suc n \<and> g ! i = a ! i
               then result s ! i = Correct \<and> guessLetters s ! i = Some (CHR ''_'')
               else result s ! i = Absent \<and> guessLetters s ! i = Some (g ! i)
                    \<and> answerLetters s ! i = Some (a ! i))"
    proof -
      fix i :: nat assume i: "i < 5"
      show "if i < Suc n \<and> g ! i = a ! i
               then result s ! i = Correct \<and> guessLetters s ! i = Some (CHR ''_'')
               else result s ! i = Absent \<and> guessLetters s ! i = Some (g ! i)
                    \<and> answerLetters s ! i = Some (a ! i)"
      proof (cases "i = n")
        case True
        then show ?thesis using False at_n by simp
      next
        case ne: False
        then have "i < Suc n \<longleftrightarrow> i < n" by auto
        then show ?thesis using pt [OF i] by simp
      qed
    qed
    then show ?thesis using ok same by (simp add: pass1_inv_def)
  next
    case True
    let ?s' = "s\<lparr>result := (result s)[n := Correct],
                 answerLetters := (answerLetters s)[n := Some (CHR ''_'')]\<rparr>"
    have step: "pass1_step n s = ?s'\<lparr>guessLetters := (guessLetters s)[n := Some (CHR ''_'')]\<rparr>"
      using n lens at_n True by (simp add: pass1_step_def js_get_in js_set_in)
    have "counts_ok g a ?s'"
      using ok g n at_n True by (intro counts_ok_take) simp_all
    then have ok': "counts_ok g a (pass1_step n s)"
      by (simp add: step counts_ok_def)
    have "\<And>i. i < 5 \<Longrightarrow> (if i < Suc n \<and> g ! i = a ! i
               then result (pass1_step n s) ! i = Correct
                    \<and> guessLetters (pass1_step n s) ! i = Some (CHR ''_'')
               else result (pass1_step n s) ! i = Absent
                    \<and> guessLetters (pass1_step n s) ! i = Some (g ! i)
                    \<and> answerLetters (pass1_step n s) ! i = Some (a ! i))"
    proof -
      fix i :: nat assume i: "i < 5"
      show "if i < Suc n \<and> g ! i = a ! i
               then result (pass1_step n s) ! i = Correct
                    \<and> guessLetters (pass1_step n s) ! i = Some (CHR ''_'')
               else result (pass1_step n s) ! i = Absent
                    \<and> guessLetters (pass1_step n s) ! i = Some (g ! i)
                    \<and> answerLetters (pass1_step n s) ! i = Some (a ! i)"
      proof (cases "i = n")
        case eq: True
        then show ?thesis using True n lens by (simp add: step)
      next
        case ne: False
        then have "i < Suc n \<longleftrightarrow> i < n" by auto
        then show ?thesis using pt [OF i] ne by (simp add: step)
      qed
    qed
    then show ?thesis using ok' by (simp add: pass1_inv_def)
  qed
qed

lemma pass1_fold:
  assumes "length g = 5" "length a = 5"
  shows "n \<le> 5 \<Longrightarrow> pass1_inv g a n (fold pass1_step [0..<n] (init_state g a))"
proof (induction n)
  case 0
  show ?case using assms by (simp add: pass1_init)
next
  case (Suc n)
  then have "pass1_inv g a n (fold pass1_step [0..<n] (init_state g a))" by simp
  moreover have "n < 5" using Suc.prems by simp
  ultimately have "pass1_inv g a (Suc n) (pass1_step n (fold pass1_step [0..<n] (init_state g a)))"
    using assms(1) by (intro pass1_step_inv)
  then show ?case by simp
qed

lemma pass1_to_pass2: "pass1_inv g a 5 s \<Longrightarrow> pass2_inv g a 0 s"
proof -
  assume inv: "pass1_inv g a 5 s"
  have pt: "\<And>i. i < 5 \<Longrightarrow> (if g ! i = a ! i
               then result s ! i = Correct \<and> guessLetters s ! i = Some (CHR ''_'')
               else result s ! i = Absent \<and> guessLetters s ! i = Some (g ! i)
                    \<and> answerLetters s ! i = Some (a ! i))"
    using inv by (simp add: pass1_inv_def)
  have "\<And>i. i < 5 \<Longrightarrow>
          guessLetters s ! i = (if g ! i = a ! i then Some (CHR ''_'') else Some (g ! i))
          \<and> (result s ! i = Correct) = (g ! i = a ! i)
          \<and> (0 \<le> i \<and> g ! i \<noteq> a ! i \<longrightarrow> result s ! i = Absent)"
  proof -
    fix i :: nat assume "i < 5"
    from pt [OF this]
    show "guessLetters s ! i = (if g ! i = a ! i then Some (CHR ''_'') else Some (g ! i))
          \<and> (result s ! i = Correct) = (g ! i = a ! i)
          \<and> (0 \<le> i \<and> g ! i \<noteq> a ! i \<longrightarrow> result s ! i = Absent)"
      by (cases "g ! i = a ! i") simp_all
  qed
  then show ?thesis using inv by (simp add: pass1_inv_def pass2_inv_def)
qed


lemma pass2_step_inv:
  assumes n: "n < 5" and g: "length g = 5" and inv: "pass2_inv g a n s"
  shows "pass2_inv g a (Suc n) (pass2_step n s)"
proof -
  have ok: "counts_ok g a s" using inv by (simp add: pass2_inv_def)
  then have lens: "length (result s) = 5" "length (answerLetters s) = 5" "length (guessLetters s) = 5"
    by (simp_all add: counts_ok_def)
  have pt: "\<And>i. i < 5 \<Longrightarrow>
          guessLetters s ! i = (if g ! i = a ! i then Some (CHR ''_'') else Some (g ! i))
          \<and> (result s ! i = Correct) = (g ! i = a ! i)
          \<and> (n \<le> i \<and> g ! i \<noteq> a ! i \<longrightarrow> result s ! i = Absent)"
    using inv by (simp add: pass2_inv_def)
  have weaker: "pass2_inv g a (Suc n) s"
    using ok pt by (simp add: pass2_inv_def)
  show ?thesis
  proof (cases "guessLetters s ! n = Some (CHR ''_'')")
    case True
    then have "pass2_step n s = s" using n lens by (simp add: pass2_step_def js_get_in)
    then show ?thesis using weaker by simp
  next
    case False
    with pt [OF n] have unmatched: "g ! n \<noteq> a ! n" and gl: "guessLetters s ! n = Some (g ! n)"
      by (auto split: if_splits)
    from pt [OF n] unmatched have absent: "result s ! n = Absent" by simp
    show ?thesis
    proof (cases "first_index (answerLetters s) (g ! n)")
      case None
      then have "pass2_step n s = s"
        using n lens gl False by (simp add: pass2_step_def js_get_in)
      then show ?thesis using weaker by simp
    next
      case (Some idx)
      from first_index_Some [OF Some] lens
      have idx: "idx < 5" "answerLetters s ! idx = Some (g ! n)" by simp_all
      let ?s' = "s\<lparr>result := (result s)[n := Present],
                   answerLetters := (answerLetters s)[idx := Some (CHR ''_'')]\<rparr>"
      have step: "pass2_step n s = ?s'"
        using n lens gl False Some idx by (simp add: pass2_step_def js_get_in js_set_in)
      have ok': "counts_ok g a ?s'"
        using ok g n absent idx by (intro counts_ok_take) simp_all
      have "\<And>i. i < 5 \<Longrightarrow>
          guessLetters ?s' ! i = (if g ! i = a ! i then Some (CHR ''_'') else Some (g ! i))
          \<and> (result ?s' ! i = Correct) = (g ! i = a ! i)
          \<and> (Suc n \<le> i \<and> g ! i \<noteq> a ! i \<longrightarrow> result ?s' ! i = Absent)"
      proof -
        fix i :: nat assume i: "i < 5"
        show "guessLetters ?s' ! i = (if g ! i = a ! i then Some (CHR ''_'') else Some (g ! i))
          \<and> (result ?s' ! i = Correct) = (g ! i = a ! i)
          \<and> (Suc n \<le> i \<and> g ! i \<noteq> a ! i \<longrightarrow> result ?s' ! i = Absent)"
        proof (cases "i = n")
          case True
          then show ?thesis using pt [OF i] unmatched n lens by simp
        next
          case False
          then show ?thesis using pt [OF i] by simp
        qed
      qed
      then show ?thesis using ok' by (simp add: step pass2_inv_def)
    qed
  qed
qed

lemma pass2_fold:
  assumes "length g = 5" "pass2_inv g a 0 s"
  shows "n \<le> 5 \<Longrightarrow> pass2_inv g a n (fold pass2_step [0..<n] s)"
proof (induction n)
  case 0
  show ?case using assms by simp
next
  case (Suc n)
  then have "pass2_inv g a n (fold pass2_step [0..<n] s)" by simp
  moreover have "n < 5" using Suc.prems by simp
  ultimately have "pass2_inv g a (Suc n) (pass2_step n (fold pass2_step [0..<n] s))"
    using assms(1) by (intro pass2_step_inv)
  then show ?case by simp
qed

lemma evaluate_inv:
  assumes "length g = 5" "length a = 5"
  shows "\<exists>s. evaluate g a = result s \<and> pass2_inv g a 5 s"
proof -
  let ?s1 = "fold pass1_step [0..<5] (init_state g a)"
  have "pass1_inv g a 5 ?s1" using assms by (intro pass1_fold) simp_all
  then have "pass2_inv g a 0 ?s1" by (rule pass1_to_pass2)
  then have "pass2_inv g a 5 (fold pass2_step [0..<5] ?s1)"
    using assms(1) by (intro pass2_fold) simp_all
  then show ?thesis by (auto simp: evaluate_def)
qed

lemma evaluate_length:
  assumes "length g = 5" "length a = 5"
  shows "length (evaluate g a) = 5"
proof -
  obtain s where s: "evaluate g a = result s" "pass2_inv g a 5 s"
    using evaluate_inv [OF assms] by blast
  from s(2) have "length (result s) = 5" by (simp add: pass2_inv_def counts_ok_def)
  then show ?thesis by (simp only: s(1))
qed

lemma evaluate_Correct_iff:
  assumes "length g = 5" "length a = 5" "i < 5"
  shows "(evaluate g a ! i = Correct) = (g ! i = a ! i)"
proof -
  obtain s where s: "evaluate g a = result s" "pass2_inv g a 5 s"
    using evaluate_inv [OF assms(1,2)] by blast
  from s(2) have "\<forall>i<5. (result s ! i = Correct) = (g ! i = a ! i)"
    by (simp add: pass2_inv_def)
  then have "(result s ! i = Correct) = (g ! i = a ! i)" using assms(3) by blast
  then show ?thesis by (simp only: s(1))
qed

lemma evaluate_marked_le:
  assumes "length g = 5" "length a = 5" "c \<noteq> CHR ''_''"
  shows "marked c g (evaluate g a) \<le> count_list a c"
proof -
  obtain s where s: "evaluate g a = result s" "pass2_inv g a 5 s"
    using evaluate_inv [OF assms(1,2)] by blast
  from s(2) have "\<forall>c. c \<noteq> CHR ''_'' \<longrightarrow>
      marked c g (result s) + count_list (answerLetters s) (Some c) = count_list a c"
    by (simp add: pass2_inv_def counts_ok_def)
  then have "marked c g (result s) + count_list (answerLetters s) (Some c) = count_list a c"
    using assms(3) by blast
  then have "marked c g (result s) \<le> count_list a c" by linarith
  then show ?thesis by (simp only: s(1))
qed

lemma marked_not_in_guess: "c \<notin> set g \<Longrightarrow> marked c g r = 0"
proof -
  assume c: "c \<notin> set g"
  have "\<forall>p \<in> set (zip g r). \<not> (case p of (x, t) \<Rightarrow> x = c \<and> t \<noteq> Absent)"
  proof
    fix p assume p: "p \<in> set (zip g r)"
    obtain x t where xt: "p = (x, t)" by (cases p)
    with p have "x \<in> set g" by (auto dest: set_zip_leftD)
    with c xt show "\<not> (case p of (x, t) \<Rightarrow> x = c \<and> t \<noteq> Absent)" by auto
  qed
  then show ?thesis by (simp add: marked_def filter_empty_conv)
qed

lemma lowercase5_no_placeholder: "lowercase5 w \<Longrightarrow> CHR ''_'' \<notin> set w"
  by (auto simp: lowercase5_def list_all_iff)

lemma count_Correct_matching:
  assumes "length g = 5" "length a = 5"
  shows "count_list (evaluate g a) Correct = matching g a"
proof -
  let ?r = "evaluate g a"
  have len: "length ?r = 5" using assms by (rule evaluate_length)
  have r: "?r = map (\<lambda>i. ?r ! i) [0..<5]"
    using len map_nth [of ?r] by simp
  have z: "zip g a = map (\<lambda>i. (g ! i, a ! i)) [0..<5]"
    using assms by (intro nth_equalityI) simp_all
  have "count_list ?r Correct = length (filter (\<lambda>t. Correct = t) (map (\<lambda>i. ?r ! i) [0..<5]))"
    using r by (simp add: count_list_eq_length_filter)
  also have "\<dots> = length (filter (\<lambda>i. Correct = ?r ! i) [0..<5])"
    by (simp add: filter_map o_def)
  also have "\<dots> = length (filter (\<lambda>i. g ! i = a ! i) [0..<5])"
  proof -
    have "filter (\<lambda>i. Correct = ?r ! i) [0..<5] = filter (\<lambda>i. g ! i = a ! i) [0..<5]"
      using assms by (intro filter_cong) (auto simp: evaluate_Correct_iff [symmetric])
    then show ?thesis by simp
  qed
  also have "\<dots> = length (filter (\<lambda>(x, y). x = y) (map (\<lambda>i. (g ! i, a ! i)) [0..<5]))"
    by (simp add: filter_map o_def)
  also have "\<dots> = matching g a" by (simp add: matching_def z)
  finally show ?thesis .
qed


lemma pass1_step_length: "length (result (pass1_step i s)) = length (result s)"
  by (simp add: pass1_step_def)

lemma pass2_step_length: "length (result (pass2_step i s)) = length (result s)"
  by (simp add: pass2_step_def split: option.split)

lemma pass1_fold_length: "length (result (fold pass1_step js s)) = length (result s)"
  by (induction js arbitrary: s) (simp_all add: pass1_step_length)

lemma pass2_fold_length: "length (result (fold pass2_step js s)) = length (result s)"
  by (induction js arbitrary: s) (simp_all add: pass2_step_length)

lemma evaluate_five_tags: "length (evaluate guess answer) = 5"
  by (simp add: evaluate_def pass1_fold_length pass2_fold_length init_state_def)

lemma five_Correct: "replicate 5 Correct = [Correct, Correct, Correct, Correct, Correct]"
  by (simp add: numeral_eq_Suc)

lemma all_Correct_iff:
  assumes "length g = 5" "length a = 5"
  shows "evaluate g a = [Correct, Correct, Correct, Correct, Correct] \<longleftrightarrow> g = a"
proof -
  have "evaluate g a = replicate 5 Correct \<longleftrightarrow> (\<forall>i<5. evaluate g a ! i = Correct)"
    by (simp add: list_eq_iff_nth_eq evaluate_five_tags)
  also have "\<dots> \<longleftrightarrow> (\<forall>i<5. g ! i = a ! i)"
    using assms by (simp add: evaluate_Correct_iff)
  also have "\<dots> \<longleftrightarrow> g = a"
    using assms by (simp add: list_eq_iff_nth_eq)
  finally show ?thesis by (simp only: five_Correct)
qed

section \<open>Properties of the scoring\<close>

text \<open>
  C1. For five-letter lower-case guess and answer, the tags hold at most as many
  \<open>correct\<close> as there are positions where guess and answer agree, and for every letter
  the positions of the guess with this letter tagged \<open>correct\<close> or \<open>present\<close> are at most
  as many as the answer holds the letter.
\<close>

theorem evaluate_counts:
  assumes "lowercase5 guess" and "lowercase5 answer"
  shows "count_list (evaluate guess answer) Correct \<le> matching guess answer
         \<and> (\<forall>c. marked c guess (evaluate guess answer) \<le> count_list answer c)"
proof -
  have g: "length guess = 5" and a: "length answer = 5"
    using assms by (simp_all add: lowercase5_def)
  have "count_list (evaluate guess answer) Correct = matching guess answer"
    using g a by (rule count_Correct_matching)
  moreover have "marked c guess (evaluate guess answer) \<le> count_list answer c" for c
  proof (cases "c = CHR ''_''")
    case True
    then have "c \<notin> set guess" using assms(1) by (simp add: lowercase5_no_placeholder)
    then show ?thesis by (simp add: marked_not_in_guess)
  next
    case False
    with g a show ?thesis by (rule evaluate_marked_le)
  qed
  ultimately show ?thesis by simp
qed

lemma geese_erase:
  "evaluate ''geese'' ''erase'' = [Absent, Present, Absent, Correct, Correct]"
  by code_simp

lemma geese_erase_counts:
  "lowercase5 ''geese'' \<and> lowercase5 ''erase''
   \<and> matching ''geese'' ''erase'' = 2 \<and> count_list ''erase'' (CHR ''e'') = 2"
  by code_simp

theorem evaluate_counts_witness:
  "lowercase5 ''geese'' \<and> lowercase5 ''erase''
   \<and> count_list (evaluate ''geese'' ''erase'') Correct \<le> 2
   \<and> marked (CHR ''e'') ''geese'' (evaluate ''geese'' ''erase'') \<le> 2"
proof -
  have h1: "lowercase5 ''geese''" and h2: "lowercase5 ''erase''"
    using geese_erase_counts by simp_all
  note t = evaluate_counts [OF h1 h2]
  from t have "marked (CHR ''e'') ''geese'' (evaluate ''geese'' ''erase'')
                 \<le> count_list ''erase'' (CHR ''e'')"
    by blast
  moreover from t have "count_list (evaluate ''geese'' ''erase'') Correct
                          \<le> matching ''geese'' ''erase''"
    by blast
  ultimately show ?thesis using geese_erase_counts by simp
qed

section \<open>\<open>POST /api/guess\<close>\<close>

lemma api_guess_Json_guess:
  assumes "api_guess WORDS now guess = Json_guess tags solved"
  shows "\<exists>answer \<in> set WORDS. length (trim (toLowerCase guess)) = 5
           \<and> trim (toLowerCase guess) \<in> set WORDS
           \<and> getDailyWord WORDS now = Some answer
           \<and> tags = evaluate (trim (toLowerCase guess)) answer
           \<and> solved = (trim (toLowerCase guess) = answer)"
proof -
  let ?word = "trim (toLowerCase guess)"
  have len: "length ?word = 5"
    using assms by (auto simp: api_guess_def Let_def split: if_splits)
  have mem: "?word \<in> set WORDS"
    using assms len by (auto simp: api_guess_def Let_def WORD_SET_def split: if_splits)
  then have "WORDS \<noteq> []" by auto
  then obtain answer where a: "answer \<in> set WORDS" "getDailyWord WORDS now = Some answer"
    using getDailyWord_in_WORDS by blast
  have "api_guess WORDS now guess = Json_guess (evaluate ?word answer) (?word = answer)"
    using len mem a(2) by (simp add: api_guess_def Let_def WORD_SET_def)
  with assms have "tags = evaluate ?word answer" "solved = (?word = answer)" by simp_all
  with a len mem show ?thesis by blast
qed

lemma example_guesses:
  "lowercase5 ''speed''
   \<and> (\<forall>x \<in> set [''crane'', ''erase'', ''speed'']. length x = 5)
   \<and> trim (toLowerCase ''  SpEed '') = ''speed''
   \<and> api_guess [''crane'', ''erase'', ''speed''] 1793664000000 ''Erase ''
        = Json_guess [Correct, Correct, Correct, Correct, Correct] True
   \<and> api_guess [''crane'', ''erase'', ''speed''] 1793664000000 ''  SpEed ''
        = Json_guess [Present, Absent, Present, Present, Absent] False
   \<and> api_guess [''crane'', ''erase'', ''speed''] 1793664000000 ''ab''
        = Json_error ''Word must be 5 letters'' 400
   \<and> api_guess [''crane'', ''erase'', ''speed''] 1793664000000 ''zzzzz''
        = Json_error ''Not in word list'' 400"
  by code_simp

text \<open>
  C9. Scoring a five-letter lower-case word against itself gives five \<open>correct\<close>, and
  scoring a five-letter guess against a five-letter answer gives five \<open>correct\<close> only
  when the two are equal. When the entries of the word list have five letters, a guess
  that passes the checks is answered with the tags of scoring the normalised word
  against the daily word and with the flag saying whether the two are equal, and that
  flag is true exactly when this scoring is five \<open>correct\<close>. Every scored response has
  this shape.
\<close>

theorem evaluate_identity_solved:
  "(lowercase5 w \<longrightarrow> evaluate w w = [Correct, Correct, Correct, Correct, Correct])
   \<and> (length g = 5 \<and> length a = 5 \<longrightarrow>
        (evaluate g a = [Correct, Correct, Correct, Correct, Correct] \<longleftrightarrow> g = a))
   \<and> ((\<forall>x \<in> set WORDS. length x = 5) \<and> length (trim (toLowerCase guess)) = 5
        \<and> trim (toLowerCase guess) \<in> set WORDS \<longrightarrow>
        (\<exists>answer. getDailyWord WORDS now = Some answer
           \<and> api_guess WORDS now guess
               = Json_guess (evaluate (trim (toLowerCase guess)) answer)
                   (trim (toLowerCase guess) = answer)
           \<and> (trim (toLowerCase guess) = answer
                \<longleftrightarrow> evaluate (trim (toLowerCase guess)) answer
                      = [Correct, Correct, Correct, Correct, Correct])))
   \<and> ((\<forall>x \<in> set WORDS. length x = 5) \<and> api_guess WORDS now guess = Json_guess tags solved
        \<longrightarrow> (\<exists>answer. getDailyWord WORDS now = Some answer
               \<and> tags = evaluate (trim (toLowerCase guess)) answer
               \<and> solved = (trim (toLowerCase guess) = answer)
               \<and> (solved \<longleftrightarrow> evaluate (trim (toLowerCase guess)) answer
                               = [Correct, Correct, Correct, Correct, Correct])))"
proof -
  let ?word = "trim (toLowerCase guess)"
  let ?five = "[Correct, Correct, Correct, Correct, Correct]"
  have 1: "evaluate w w = ?five" if "lowercase5 w"
  proof -
    from that have "length w = 5" by (simp add: lowercase5_def)
    then show ?thesis by (simp add: all_Correct_iff)
  qed
  have 2: "evaluate g a = ?five \<longleftrightarrow> g = a" if "length g = 5 \<and> length a = 5"
    using that by (simp add: all_Correct_iff)
  have 3: "\<exists>answer. getDailyWord WORDS now = Some answer
           \<and> api_guess WORDS now guess = Json_guess (evaluate ?word answer) (?word = answer)
           \<and> (?word = answer \<longleftrightarrow> evaluate ?word answer = ?five)"
    if h: "(\<forall>x \<in> set WORDS. length x = 5) \<and> length ?word = 5 \<and> ?word \<in> set WORDS"
  proof -
    from h have "WORDS \<noteq> []" by auto
    then obtain answer where a: "answer \<in> set WORDS" "getDailyWord WORDS now = Some answer"
      using getDailyWord_in_WORDS by blast
    from h a(1) have "length answer = 5" by blast
    with h have "evaluate ?word answer = ?five \<longleftrightarrow> ?word = answer"
      by (intro all_Correct_iff) simp_all
    moreover have "api_guess WORDS now guess
                     = Json_guess (evaluate ?word answer) (?word = answer)"
      using h a(2) by (simp add: api_guess_def Let_def WORD_SET_def)
    ultimately show ?thesis using a(2) by blast
  qed
  have 4: "\<exists>answer. getDailyWord WORDS now = Some answer
               \<and> tags = evaluate ?word answer \<and> solved = (?word = answer)
               \<and> (solved \<longleftrightarrow> evaluate ?word answer = ?five)"
    if h: "(\<forall>x \<in> set WORDS. length x = 5) \<and> api_guess WORDS now guess = Json_guess tags solved"
  proof -
    from h obtain answer where a: "answer \<in> set WORDS" "length ?word = 5"
        "getDailyWord WORDS now = Some answer"
        "tags = evaluate ?word answer" "solved = (?word = answer)"
      using api_guess_Json_guess [of WORDS now guess tags solved] by blast
    from h a(1) have "length answer = 5" by blast
    with a(2) have "evaluate ?word answer = ?five \<longleftrightarrow> ?word = answer"
      by (rule all_Correct_iff)
    then have "solved \<longleftrightarrow> evaluate ?word answer = ?five"
      by (simp only: a(5))
    with a(3,4,5) show ?thesis by blast
  qed
  from 1 2 3 4 show ?thesis by blast
qed

theorem evaluate_identity_solved_witness:
  "lowercase5 ''speed''
   \<and> evaluate ''speed'' ''speed'' = [Correct, Correct, Correct, Correct, Correct]
   \<and> length ''speed'' = 5 \<and> length ''erase'' = 5 \<and> length ''crane'' = 5
   \<and> evaluate ''speed'' ''erase'' \<noteq> [Correct, Correct, Correct, Correct, Correct]
   \<and> length (trim (toLowerCase ''  SpEed '')) = 5
   \<and> trim (toLowerCase ''  SpEed '') \<in> set [''crane'', ''erase'', ''speed'']
   \<and> api_guess [''crane'', ''erase'', ''speed''] 1793664000000 ''  SpEed ''
        = Json_guess [Present, Absent, Present, Present, Absent] False
   \<and> api_guess [''crane'', ''erase'', ''speed''] 1793664000000 ''Erase ''
        = Json_guess [Correct, Correct, Correct, Correct, Correct] True"
proof -
  have w: "trim (toLowerCase ''  SpEed '') = ''speed''"
    using example_guesses by blast
  have ne: "''speed'' \<noteq> ''erase''" by simp
  note t = evaluate_identity_solved [of "''speed''" "''speed''" "''erase''"
      "[''crane'', ''erase'', ''speed'']" "''Erase ''" 1793664000000
      "[Correct, Correct, Correct, Correct, Correct]" True]
  have l: "lowercase5 ''speed''"
    using example_guesses by blast
  have same: "evaluate ''speed'' ''speed'' = [Correct, Correct, Correct, Correct, Correct]"
    using t [THEN conjunct1] l by blast
  have "length ''speed'' = 5 \<and> length ''erase'' = 5" by simp
  with t [THEN conjunct2, THEN conjunct1]
  have "evaluate ''speed'' ''erase'' = [Correct, Correct, Correct, Correct, Correct]
          \<longleftrightarrow> ''speed'' = ''erase''"
    by blast
  with ne have other: "evaluate ''speed'' ''erase'' \<noteq> [Correct, Correct, Correct, Correct, Correct]"
    by blast
  show ?thesis using l same other example_guesses by (simp add: w)
qed

text \<open>
  C8. The guess is lower-cased, then trimmed. The response is the error "Word must be 5
  letters" exactly when the normalised word has not five code units, and the error "Not
  in word list" exactly when it has five and is not in the word list. Otherwise the
  daily word exists, and the response carries the five tags of scoring the normalised
  word against it, and whether the normalised word is that same daily word.
\<close>

theorem api_guess_cases:
  "(api_guess WORDS now guess = Json_error ''Word must be 5 letters'' 400
      \<longleftrightarrow> length (trim (toLowerCase guess)) \<noteq> 5)
   \<and> (api_guess WORDS now guess = Json_error ''Not in word list'' 400
      \<longleftrightarrow> length (trim (toLowerCase guess)) = 5 \<and> trim (toLowerCase guess) \<notin> set WORDS)
   \<and> (length (trim (toLowerCase guess)) = 5 \<and> trim (toLowerCase guess) \<in> set WORDS \<longrightarrow>
        (\<exists>answer. getDailyWord WORDS now = Some answer
           \<and> api_guess WORDS now guess
               = Json_guess (evaluate (trim (toLowerCase guess)) answer)
                   (trim (toLowerCase guess) = answer)
           \<and> length (evaluate (trim (toLowerCase guess)) answer) = 5))"
proof -
  let ?word = "trim (toLowerCase guess)"
  show ?thesis
  proof (cases "length ?word = 5")
    case False
    then show ?thesis by (simp add: api_guess_def Let_def)
  next
    case len: True
    show ?thesis
    proof (cases "?word \<in> set WORDS")
      case False
      with len show ?thesis by (simp add: api_guess_def Let_def WORD_SET_def)
    next
      case True
      then have "WORDS \<noteq> []" by auto
      then obtain answer where a: "getDailyWord WORDS now = Some answer"
        using getDailyWord_in_WORDS by blast
      with len True show ?thesis
        by (simp add: api_guess_def Let_def WORD_SET_def evaluate_five_tags)
    qed
  qed
qed


theorem api_guess_cases_witness:
  "length (trim (toLowerCase ''  SpEed '')) = 5
   \<and> trim (toLowerCase ''  SpEed '') \<in> set [''crane'', ''erase'', ''speed'']
   \<and> api_guess [''crane'', ''erase'', ''speed''] 1793664000000 ''  SpEed ''
        = Json_guess [Present, Absent, Present, Present, Absent] False
   \<and> length (trim (toLowerCase ''ab'')) \<noteq> 5
   \<and> api_guess [''crane'', ''erase'', ''speed''] 1793664000000 ''ab''
        = Json_error ''Word must be 5 letters'' 400
   \<and> length (trim (toLowerCase ''zzzzz'')) = 5
   \<and> trim (toLowerCase ''zzzzz'') \<notin> set [''crane'', ''erase'', ''speed'']
   \<and> api_guess [''crane'', ''erase'', ''speed''] 1793664000000 ''zzzzz''
        = Json_error ''Not in word list'' 400"
proof -
  have w: "trim (toLowerCase ''  SpEed '') = ''speed''"
    using example_guesses by blast
  have ab: "length (trim (toLowerCase ''ab'')) \<noteq> 5"
    by code_simp
  have z: "trim (toLowerCase ''zzzzz'') = ''zzzzz''"
    by code_simp
  show ?thesis
    using api_guess_cases [of "[''crane'', ''erase'', ''speed'']" 1793664000000 "''  SpEed ''"]
      api_guess_cases [of "[''crane'', ''erase'', ''speed'']" 1793664000000 "''ab''"]
      api_guess_cases [of "[''crane'', ''erase'', ''speed'']" 1793664000000 "''zzzzz''"]
      ab example_guesses
    by (simp add: w z)
qed

end
